theory Spec2Isabelle
  imports Main
begin

section \<open>Links\<close>

text \<open>
  The repository's \<^verbatim>\<open>main.go\<close> is kept in two revisions. They share \<^verbatim>\<open>Link\<close>,
  \<^verbatim>\<open>Valid\<close>, \<^verbatim>\<open>NewLink\<close> and \<^verbatim>\<open>getUrl\<close> word for word and differ in
  \<^verbatim>\<open>ExtractLinks\<close> (the orphaned end tag) and in \<^verbatim>\<open>crawler\<close> (the depth test and the
  worker's error path). The shared functions are embedded once; the others once per
  revision, with the suffix 1 for the first revision of the file and 2 for the second.

  Go strings are byte sequences: \<^typ>\<open>string\<close>. Go's \<^verbatim>\<open>int\<close> is modelled by
  \<^typ>\<open>int\<close>: the counter and the depths stay far below the 64-bit bound.
\<close>

text \<open>\<^verbatim>\<open>type Link struct { url string; text string; depth int }\<close>; the field
  \<^verbatim>\<open>text\<close> is called \<open>link_text\<close> here.\<close>

record Link =
  url :: string
  link_text :: string
  depth :: int

subsection \<open>The string functions of Go's library that the code calls\<close>

text \<open>
  \<^verbatim>\<open>strings.Contains\<close>, \<^verbatim>\<open>strings.TrimSpace\<close> and \<^verbatim>\<open>strings.ToLower\<close> on byte strings
  that are read as UTF-8, as Go reads them. The simple lower-case mapping of the code points
  above U+007F is a table of package \<^verbatim>\<open>unicode\<close>: it is a parameter (\<open>tbl\<close>).
\<close>

type_synonym rune = nat

definition byte :: "char \<Rightarrow> nat" where
  "byte c = of_char c"

definition isASCII :: "char \<Rightarrow> bool" where
  "isASCII c = (byte c < 128)"

text \<open>A continuation byte, 0x80 to 0xBF.\<close>

definition cont :: "char \<Rightarrow> bool" where
  "cont c = (128 \<le> byte c \<and> byte c \<le> 191)"

definition RuneError :: rune where
  "RuneError = 65533"

text \<open>\<^verbatim>\<open>utf8.DecodeRuneInString\<close>: the first code point and its width; a byte that starts no
  well-formed sequence (overlong forms and surrogates included) is U+FFFD of width 1.\<close>

fun DecodeRune :: "string \<Rightarrow> rune \<times> nat" where
  "DecodeRune [] = (RuneError, 0)"
| "DecodeRune (c0 # s) =
     (let b0 = byte c0 in
      if b0 < 128 then (b0, 1)
      else if 194 \<le> b0 \<and> b0 \<le> 223 then
        (case s of
           c1 # s1 \<Rightarrow> if cont c1 then ((b0 - 192) * 64 + (byte c1 - 128), 2) else (RuneError, 1)
         | _ \<Rightarrow> (RuneError, 1))
      else if 224 \<le> b0 \<and> b0 \<le> 239 then
        (case s of
           c1 # c2 # s2 \<Rightarrow>
             if cont c1 \<and> cont c2 \<and> (b0 = 224 \<longrightarrow> 160 \<le> byte c1)
                \<and> (b0 = 237 \<longrightarrow> byte c1 \<le> 159)
             then ((b0 - 224) * 4096 + (byte c1 - 128) * 64 + (byte c2 - 128), 3)
             else (RuneError, 1)
         | _ \<Rightarrow> (RuneError, 1))
      else if 240 \<le> b0 \<and> b0 \<le> 244 then
        (case s of
           c1 # c2 # c3 # s3 \<Rightarrow>
             if cont c1 \<and> cont c2 \<and> cont c3 \<and> (b0 = 240 \<longrightarrow> 144 \<le> byte c1)
                \<and> (b0 = 244 \<longrightarrow> byte c1 \<le> 143)
             then ((b0 - 240) * 262144 + (byte c1 - 128) * 4096 + (byte c2 - 128) * 64
                     + (byte c3 - 128), 4)
             else (RuneError, 1)
         | _ \<Rightarrow> (RuneError, 1))
      else (RuneError, 1))"

text \<open>\<^verbatim>\<open>utf8.EncodeRune\<close>: a surrogate or a value above U+10FFFF is written as U+FFFD.\<close>

definition EncodeRune :: "rune \<Rightarrow> string" where
  "EncodeRune r =
     (if r < 128 then [char_of r]
      else if r < 2048 then [char_of (192 + r div 64), char_of (128 + r mod 64)]
      else if (55296 \<le> r \<and> r \<le> 57343) \<or> 1114111 < r then
        [char_of (239::nat), char_of (191::nat), char_of (189::nat)]
      else if r < 65536 then
        [char_of (224 + r div 4096), char_of (128 + r div 64 mod 64), char_of (128 + r mod 64)]
      else [char_of (240 + r div 262144), char_of (128 + r div 4096 mod 64),
            char_of (128 + r div 64 mod 64), char_of (128 + r mod 64)])"

text \<open>\<^verbatim>\<open>strings.Map\<close>: every code point of the string is mapped and written back.\<close>

function strings_Map :: "(rune \<Rightarrow> rune) \<Rightarrow> string \<Rightarrow> string" where
  "strings_Map mapping s =
     (if s = [] then []
      else EncodeRune (mapping (fst (DecodeRune s)))
             @ strings_Map mapping (drop (snd (DecodeRune s)) s))"
  by pat_completeness auto
termination
proof (relation "measure (\<lambda>(mapping, s). length s)")
  show "wf (measure (\<lambda>(mapping, s). length s))" by simp
next
  fix mapping :: "rune \<Rightarrow> rune" and s :: string
  assume "s \<noteq> []"
  then have "0 < snd (DecodeRune s)"
    by (cases s) (auto simp: Let_def split: list.splits)
  then show "((mapping, drop (snd (DecodeRune s)) s), (mapping, s))
                \<in> measure (\<lambda>(mapping, s). length s)"
    using \<open>s \<noteq> []\<close> by simp
qed

declare strings_Map.simps [simp del]

text \<open>\<^verbatim>\<open>unicode.ToLower\<close>: the letters A to Z below U+0080, the table above.\<close>

definition unicode_ToLower :: "(rune \<Rightarrow> rune) \<Rightarrow> rune \<Rightarrow> rune" where
  "unicode_ToLower tbl r =
     (if r < 128 then (if 65 \<le> r \<and> r \<le> 90 then r + 32 else r) else tbl r)"

definition toLowerByte :: "char \<Rightarrow> char" where
  "toLowerByte c = (if 65 \<le> byte c \<and> byte c \<le> 90 then char_of (byte c + 32) else c)"

text \<open>\<^verbatim>\<open>strings.ToLower\<close>: a string of ASCII bytes is lowered byte by byte, any other
  string goes through \<^verbatim>\<open>strings.Map\<close>.\<close>

definition ToLower :: "(rune \<Rightarrow> rune) \<Rightarrow> string \<Rightarrow> string" where
  "ToLower tbl s =
     (if list_all isASCII s then map toLowerByte s else strings_Map (unicode_ToLower tbl) s)"

fun Contains :: "string \<Rightarrow> string \<Rightarrow> bool" where
  "Contains [] substr = (substr = [])"
| "Contains (c # s) substr = (take (length substr) (c # s) = substr \<or> Contains s substr)"

text \<open>
  The white space of \<^verbatim>\<open>unicode.IsSpace\<close> in UTF-8: U+0009 to U+000D and U+0020 in one
  byte; U+0085 and U+00A0 in two; U+1680, U+2000 to U+200A, U+2028, U+2029, U+202F, U+205F
  and U+3000 in three.
\<close>

definition isSpace1 :: "char \<Rightarrow> bool" where
  "isSpace1 c0 = (byte c0 \<in> {9, 10, 11, 12, 13, 32})"

definition isSpace2 :: "char \<Rightarrow> char \<Rightarrow> bool" where
  "isSpace2 c0 c1 = (byte c0 = 194 \<and> byte c1 \<in> {133, 160})"

definition isSpace3 :: "char \<Rightarrow> char \<Rightarrow> char \<Rightarrow> bool" where
  "isSpace3 c0 c1 c2 =
     (byte c0 = 225 \<and> byte c1 = 154 \<and> byte c2 = 128 \<or>
      byte c0 = 226 \<and> byte c1 = 128 \<and>
        (128 \<le> byte c2 \<and> byte c2 \<le> 138 \<or> byte c2 \<in> {168, 169, 175}) \<or>
      byte c0 = 226 \<and> byte c1 = 129 \<and> byte c2 = 159 \<or>
      byte c0 = 227 \<and> byte c1 = 128 \<and> byte c2 = 128)"

text \<open>\<^verbatim>\<open>strings.TrimSpace\<close>: the leading white space is cut, then the trailing one; the
  second function reads the string from its end, so its argument is the reversed string.\<close>

fun trimLeft :: "string \<Rightarrow> string" where
  "trimLeft (c0 # c1 # c2 # s) =
     (if isSpace1 c0 then trimLeft (c1 # c2 # s)
      else if isSpace2 c0 c1 then trimLeft (c2 # s)
      else if isSpace3 c0 c1 c2 then trimLeft s
      else c0 # c1 # c2 # s)"
| "trimLeft [c0, c1] =
     (if isSpace1 c0 then trimLeft [c1] else if isSpace2 c0 c1 then [] else [c0, c1])"
| "trimLeft [c0] = (if isSpace1 c0 then [] else [c0])"
| "trimLeft [] = []"

fun trimRight_rev :: "string \<Rightarrow> string" where
  "trimRight_rev (c2 # c1 # c0 # s) =
     (if isSpace1 c2 then trimRight_rev (c1 # c0 # s)
      else if isSpace2 c1 c2 then trimRight_rev (c0 # s)
      else if isSpace3 c0 c1 c2 then trimRight_rev s
      else c2 # c1 # c0 # s)"
| "trimRight_rev [c1, c0] =
     (if isSpace1 c1 then trimRight_rev [c0] else if isSpace2 c0 c1 then [] else [c1, c0])"
| "trimRight_rev [c0] = (if isSpace1 c0 then [] else [c0])"
| "trimRight_rev [] = []"

definition TrimSpace :: "string \<Rightarrow> string" where
  "TrimSpace s = rev (trimRight_rev (rev (trimLeft s)))"

subsection \<open>Valid\<close>

definition Valid :: "(rune \<Rightarrow> rune) \<Rightarrow> Link \<Rightarrow> bool" where
  "Valid tbl self =
     (if length (link_text self) = 0 then False
      else if length (url self) = 0 \<or> Contains (ToLower tbl (url self)) ''javascript'' then False
      else True)"

section \<open>Tokens and link extraction\<close>

text \<open>The tokenizer of \<^verbatim>\<open>golang.org/x/net/html\<close> is a collaborator: a response body is
  modelled by the tokens it yields. After the last token, and at any \<open>ErrorToken\<close>,
  the tokenizer reports the end of the stream.\<close>

datatype TokenType =
  ErrorToken | TextToken | StartTagToken | EndTagToken | SelfClosingTagToken
  | CommentToken | DoctypeToken

datatype Atom = atom_A | atom_other

record Attribute =
  Key :: string
  Val :: string

record Token =
  Type :: TokenType
  DataAtom :: Atom
  Data :: string
  Attr :: "Attribute list"

text \<open>\<^verbatim>\<open>NewLink\<close>: every attribute is visited in order, so the last \<^verbatim>\<open>href\<close> stays.\<close>

definition NewLink :: "Token \<Rightarrow> string \<Rightarrow> int \<Rightarrow> Link" where
  "NewLink tag tx dep =
     foldl (\<lambda>link attr. if Key attr = ''href'' then link\<lparr>url := TrimSpace (Val attr)\<rparr> else link)
       \<lparr>url = [], link_text = TrimSpace tx, depth = dep\<rparr> (Attr tag)"

text \<open>A nil pointer dereference ends the whole Go program.\<close>

datatype panic = NilPointerDereference

text \<open>
  The loop of \<^verbatim>\<open>ExtractLinks\<close> over the remaining tokens, with the locals \<^verbatim>\<open>start\<close>,
  \<^verbatim>\<open>text\<close> and \<^verbatim>\<open>links\<close>, and the texts passed to \<^verbatim>\<open>log.Warnf\<close> so far
  (the debug messages are left out). Second revision: at an anchor end tag with no start
  held it warns and returns.
\<close>

fun scan2 ::
  "(rune \<Rightarrow> rune) \<Rightarrow> int \<Rightarrow> Token list \<Rightarrow> Token option \<Rightarrow> string \<Rightarrow> Link list \<Rightarrow> string list
    \<Rightarrow> Link list \<times> string list" where
  "scan2 tbl dep [] start tx links warned = (links, warned)"
| "scan2 tbl dep (token # page) start tx links warned =
     (if Type token = ErrorToken then (links, warned)
      else
        let tx = (if start \<noteq> None \<and> Type token = TextToken then tx @ Data token else tx)
        in
          if DataAtom token = atom_A \<and> Type token = StartTagToken then
            scan2 tbl dep page (if length (Attr token) > 0 then Some token else start) tx links warned
          else if DataAtom token = atom_A \<and> Type token = EndTagToken then
            (case start of
               None \<Rightarrow> (links, warned @ [tx])
             | Some tag \<Rightarrow>
                 let link = NewLink tag tx dep
                 in scan2 tbl dep page None [] (if Valid tbl link then links @ [link] else links) warned)
          else scan2 tbl dep page start tx links warned)"

definition ExtractLinks2 :: "(rune \<Rightarrow> rune) \<Rightarrow> Token list \<Rightarrow> int \<Rightarrow> Link list" where
  "ExtractLinks2 tbl body dep = fst (scan2 tbl dep body None [] [] [])"

definition ExtractLinks2_warnings :: "(rune \<Rightarrow> rune) \<Rightarrow> Token list \<Rightarrow> int \<Rightarrow> string list" where
  "ExtractLinks2_warnings tbl body dep = snd (scan2 tbl dep body None [] [] [])"

text \<open>First revision: after the warning there is no return, and \<^verbatim>\<open>*start\<close> is evaluated
  with \<^verbatim>\<open>start == nil\<close>.\<close>

fun scan1 ::
  "(rune \<Rightarrow> rune) \<Rightarrow> int \<Rightarrow> Token list \<Rightarrow> Token option \<Rightarrow> string \<Rightarrow> Link list \<Rightarrow> panic + Link list" where
  "scan1 tbl dep [] start tx links = Inr links"
| "scan1 tbl dep (token # page) start tx links =
     (if Type token = ErrorToken then Inr links
      else
        let tx = (if start \<noteq> None \<and> Type token = TextToken then tx @ Data token else tx)
        in
          if DataAtom token = atom_A \<and> Type token = StartTagToken then
            scan1 tbl dep page (if length (Attr token) > 0 then Some token else start) tx links
          else if DataAtom token = atom_A \<and> Type token = EndTagToken then
            (case start of
               None \<Rightarrow> Inl NilPointerDereference
             | Some tag \<Rightarrow>
                 let link = NewLink tag tx dep
                 in scan1 tbl dep page None [] (if Valid tbl link then links @ [link] else links))
          else scan1 tbl dep page start tx links)"

definition ExtractLinks1 :: "(rune \<Rightarrow> rune) \<Rightarrow> Token list \<Rightarrow> int \<Rightarrow> panic + Link list" where
  "ExtractLinks1 tbl body dep = scan1 tbl dep body None [] []"

section \<open>Fetching\<close>

text \<open>\<^verbatim>\<open>http.Get\<close> is a collaborator: a function from the URL to either the message of a
  transport error or the response, whose body is given by its tokens.\<close>

record Response =
  StatusCode :: int
  Body :: "Token list"

type_synonym http = "string \<Rightarrow> string + Response"

text \<open>What the code uses from outside the repository: \<^verbatim>\<open>http.Get\<close> and the table of
  \<^verbatim>\<open>unicode.ToLower\<close>.\<close>

record outside =
  http_Get :: http
  lower_table :: "rune \<Rightarrow> rune"

datatype error = TransportError string | HttpGetError string

text \<open>
  \<^verbatim>\<open>getUrl\<close> returns the pair \<^verbatim>\<open>(resp, err)\<close>: \<open>Inl err\<close> when \<^verbatim>\<open>err != nil\<close>,
  \<open>Inr resp\<close> when \<^verbatim>\<open>err == nil\<close>. For a status above 299 the source builds an
  \<^verbatim>\<open>HttpGetError\<close>, passes it to \<^verbatim>\<open>log.Debug\<close> and returns with \<^verbatim>\<open>err\<close> untouched,
  that is nil.
\<close>

definition getUrl :: "outside \<Rightarrow> string \<Rightarrow> error + Response" where
  "getUrl env u =
     (case http_Get env u of
        Inl e \<Rightarrow> Inl (TransportError e)
      | Inr resp \<Rightarrow> if StatusCode resp > 299 then Inr resp else Inr resp)"

section \<open>The crawler: goroutines, the frontier channel and the semaphore\<close>

text \<open>
  \<^verbatim>\<open>crawler\<close> runs a main loop, one goroutine that sends the seed batch and one
  goroutine per accepted link. The state holds the variables of \<^verbatim>\<open>crawler\<close>, the place
  each goroutine has reached, and the number of tokens in the buffered channel
  \<^verbatim>\<open>requestTokens\<close> (capacity 10). \<^verbatim>\<open>frontier\<close> is unbuffered: a send completes
  together with the receive of the main loop.
\<close>

datatype variant = V1 | V2

datatype worker_at =
  AtGetUrl                \<comment> \<open>before \<^verbatim>\<open>getUrl(link.url)\<close>\<close>
  | AtAcquire Response    \<comment> \<open>before \<^verbatim>\<open>requestTokens <- struct{}{}\<close>\<close>
  | AtExtract Response    \<comment> \<open>in \<^verbatim>\<open>ExtractLinks(resp, link.depth + 1)\<close>\<close>
  | AtRelease "Link list" \<comment> \<open>before \<^verbatim>\<open><-requestTokens\<close>\<close>
  | AtSend "Link list"    \<comment> \<open>before \<^verbatim>\<open>frontier <- batch\<close>\<close>
  | Finished

datatype main_at =
  AtLoop                  \<comment> \<open>at the test \<^verbatim>\<open>n > 0\<close> and the receive that follows it\<close>
  | AtRange "Link list"   \<comment> \<open>in \<^verbatim>\<open>for _, link := range links\<close>, these links left\<close>
  | Returned

record crawl =
  n_pending :: int                      \<comment> \<open>the variable \<^verbatim>\<open>n\<close>\<close>
  visited :: "string \<Rightarrow> bool"
  res :: "Link list"
  at_main :: main_at
  seed_send :: "Link list option"       \<comment> \<open>the seed goroutine: the batch it has yet to send\<close>
  workers :: "(Link \<times> worker_at) list"  \<comment> \<open>one entry per \<^verbatim>\<open>go func(link Link)\<close>, in spawn order\<close>
  requestTokens :: nat
  panicked :: bool
  ranged :: "Link list"
    \<comment> \<open>history, not a variable of the source: the links the range loop has taken, in order\<close>

definition crawler_init :: "string list \<Rightarrow> crawl" where
  "crawler_init urls =
     \<lparr>n_pending = int (length urls), visited = (\<lambda>u. False), res = [], at_main = AtLoop,
      seed_send = Some (map (\<lambda>u. \<lparr>url = TrimSpace u, link_text = u, depth = 0\<rparr>) urls),
      workers = [], requestTokens = 0, panicked = False, ranged = []\<rparr>"

text \<open>One pass through the body of the range loop, first revision: the depth test
  \<^verbatim>\<open>link.depth == maxDepth + 1\<close> comes before the append and ends the crawl with
  \<^verbatim>\<open>n = 0; break\<close>.\<close>

definition range_body1 :: "int \<Rightarrow> Link \<Rightarrow> Link list \<Rightarrow> crawl \<Rightarrow> crawl" where
  "range_body1 maxDepth link rest s =
     (if visited s (url link) then s\<lparr>at_main := AtRange rest\<rparr>
      else
        let s = s\<lparr>visited := (visited s)(url link := True)\<rparr>
        in
          if depth link = maxDepth + 1 then s\<lparr>n_pending := 0, at_main := AtRange []\<rparr>
          else s\<lparr>res := res s @ [link], n_pending := n_pending s + 1,
                 workers := workers s @ [(link, AtGetUrl)], at_main := AtRange rest\<rparr>)"

text \<open>Second revision: the append comes first, and a link at \<^verbatim>\<open>maxDepth\<close> is not
  expanded.\<close>

definition range_body2 :: "int \<Rightarrow> Link \<Rightarrow> Link list \<Rightarrow> crawl \<Rightarrow> crawl" where
  "range_body2 maxDepth link rest s =
     (if visited s (url link) then s\<lparr>at_main := AtRange rest\<rparr>
      else
        let s = s\<lparr>visited := (visited s)(url link := True), res := res s @ [link]\<rparr>
        in
          if depth link = maxDepth then s\<lparr>at_main := AtRange rest\<rparr>
          else s\<lparr>n_pending := n_pending s + 1,
                 workers := workers s @ [(link, AtGetUrl)], at_main := AtRange rest\<rparr>)"

definition range_body :: "variant \<Rightarrow> int \<Rightarrow> Link \<Rightarrow> Link list \<Rightarrow> crawl \<Rightarrow> crawl" where
  "range_body v = (case v of V1 \<Rightarrow> range_body1 | V2 \<Rightarrow> range_body2)"

text \<open>The worker after \<^verbatim>\<open>err != nil\<close>: the first revision returns, the second sends
  \<^verbatim>\<open>[]Link{}\<close> and returns.\<close>

definition on_error :: "variant \<Rightarrow> worker_at" where
  "on_error v = (case v of V1 \<Rightarrow> Finished | V2 \<Rightarrow> AtSend [])"

definition ExtractLinks :: "variant \<Rightarrow> (rune \<Rightarrow> rune) \<Rightarrow> Token list \<Rightarrow> int \<Rightarrow> panic + Link list" where
  "ExtractLinks v tbl body dep =
     (case v of V1 \<Rightarrow> ExtractLinks1 tbl body dep | V2 \<Rightarrow> Inr (ExtractLinks2 tbl body dep))"

definition receiving :: "crawl \<Rightarrow> bool" where
  "receiving s = (at_main s = AtLoop \<and> n_pending s > 0)"

definition set_worker :: "nat \<Rightarrow> Link \<times> worker_at \<Rightarrow> crawl \<Rightarrow> crawl" where
  "set_worker i w s = s\<lparr>workers := (workers s)[i := w]\<rparr>"

text \<open>The main loop \<^verbatim>\<open>for ; n > 0; n--\<close>. With \<^verbatim>\<open>n > 0\<close> it waits at the receive; the
  receive itself is the step of the sender.\<close>

definition main_step :: "variant \<Rightarrow> int \<Rightarrow> crawl \<Rightarrow> crawl option" where
  "main_step v maxDepth s =
     (case at_main s of
        AtLoop \<Rightarrow> if n_pending s > 0 then None else Some (s\<lparr>at_main := Returned\<rparr>)
      | AtRange [] \<Rightarrow> Some (s\<lparr>n_pending := n_pending s - 1, at_main := AtLoop\<rparr>)
      | AtRange (link # rest) \<Rightarrow>
          Some ((range_body v maxDepth link rest s)\<lparr>ranged := ranged s @ [link]\<rparr>)
      | Returned \<Rightarrow> None)"

definition seed_step :: "crawl \<Rightarrow> crawl option" where
  "seed_step s =
     (case seed_send s of
        None \<Rightarrow> None
      | Some initialLinks \<Rightarrow>
          if receiving s then Some (s\<lparr>seed_send := None, at_main := AtRange initialLinks\<rparr>)
          else None)"

definition worker_step :: "variant \<Rightarrow> outside \<Rightarrow> nat \<Rightarrow> crawl \<Rightarrow> crawl option" where
  "worker_step v env i s =
     (if i < length (workers s) then
        (case workers s ! i of (link, w) \<Rightarrow>
          (case w of
             AtGetUrl \<Rightarrow>
               (case getUrl env (url link) of
                  Inl err \<Rightarrow> Some (set_worker i (link, on_error v) s)
                | Inr resp \<Rightarrow> Some (set_worker i (link, AtAcquire resp) s))
           | AtAcquire resp \<Rightarrow>
               if requestTokens s < 10
               then Some ((set_worker i (link, AtExtract resp) s)
                            \<lparr>requestTokens := requestTokens s + 1\<rparr>)
               else None
           | AtExtract resp \<Rightarrow>
               (case ExtractLinks v (lower_table env) (Body resp) (depth link + 1) of
                  Inl p \<Rightarrow> Some (s\<lparr>panicked := True\<rparr>)
                | Inr newLinks \<Rightarrow> Some (set_worker i (link, AtRelease newLinks) s))
           | AtRelease newLinks \<Rightarrow>
               if requestTokens s > 0
               then Some ((set_worker i (link, AtSend newLinks) s)
                            \<lparr>requestTokens := requestTokens s - 1\<rparr>)
               else None
           | AtSend batch \<Rightarrow>
               if receiving s
               then Some ((set_worker i (link, Finished) s)\<lparr>at_main := AtRange batch\<rparr>)
               else None
           | Finished \<Rightarrow> None))
      else None)"

datatype goroutine = MainG | SeedG | WorkerG nat

text \<open>One step of one goroutine; \<open>None\<close> when it is blocked or has ended. After a
  panic nothing runs.\<close>

definition step :: "variant \<Rightarrow> outside \<Rightarrow> int \<Rightarrow> goroutine \<Rightarrow> crawl \<Rightarrow> crawl option" where
  "step v env maxDepth g s =
     (if panicked s then None
      else case g of
        MainG \<Rightarrow> main_step v maxDepth s
      | SeedG \<Rightarrow> seed_step s
      | WorkerG i \<Rightarrow> worker_step v env i s)"

text \<open>A schedule names the goroutine that takes each step.\<close>

fun run :: "variant \<Rightarrow> outside \<Rightarrow> int \<Rightarrow> goroutine list \<Rightarrow> crawl \<Rightarrow> crawl option" where
  "run v env maxDepth [] s = Some s"
| "run v env maxDepth (g # gs) s =
     (case step v env maxDepth g s of
        None \<Rightarrow> None
      | Some s' \<Rightarrow> run v env maxDepth gs s')"

inductive reachable :: "variant \<Rightarrow> outside \<Rightarrow> int \<Rightarrow> string list \<Rightarrow> crawl \<Rightarrow> bool"
  for v :: variant and env :: outside and maxDepth :: int and urls :: "string list" where
  reach_init: "reachable v env maxDepth urls (crawler_init urls)"
| reach_step: "reachable v env maxDepth urls s \<Longrightarrow> step v env maxDepth g s = Some s'
     \<Longrightarrow> reachable v env maxDepth urls s'"

section \<open>Notions used to state the properties\<close>

text \<open>
  The anchors the state machine of the specification closes, as pairs of the start tag
  held and the text gathered: the tokens are read as \<^verbatim>\<open>ExtractLinks\<close> reads them, up to
  the end of the stream or an anchor end tag with no start tag held. \<open>candidates\<close>
  are the links \<^verbatim>\<open>NewLink\<close> builds from them, before the validity test.
\<close>

fun anchors :: "Token list \<Rightarrow> Token option \<Rightarrow> string \<Rightarrow> (Token \<times> string) list" where
  "anchors [] start tx = []"
| "anchors (token # page) start tx =
     (if Type token = ErrorToken then []
      else
        let tx = (if start \<noteq> None \<and> Type token = TextToken then tx @ Data token else tx)
        in
          if DataAtom token = atom_A \<and> Type token = StartTagToken then
            anchors page (if length (Attr token) > 0 then Some token else start) tx
          else if DataAtom token = atom_A \<and> Type token = EndTagToken then
            (case start of
               None \<Rightarrow> []
             | Some tag \<Rightarrow> (tag, tx) # anchors page None [])
          else anchors page start tx)"

definition candidates :: "Token list \<Rightarrow> int \<Rightarrow> Link list" where
  "candidates body dep = map (\<lambda>(tag, tx). NewLink tag tx dep) (anchors body None [])"

text \<open>A worker holds a token of \<^verbatim>\<open>requestTokens\<close> from its send on that channel to its
  receive from it; in between it runs \<^verbatim>\<open>ExtractLinks\<close>.\<close>

fun holds_token :: "Link \<times> worker_at \<Rightarrow> bool" where
  "holds_token (link, AtExtract resp) = True"
| "holds_token (link, AtRelease newLinks) = True"
| "holds_token (link, w) = False"

fun extracting :: "Link \<times> worker_at \<Rightarrow> bool" where
  "extracting (link, AtExtract resp) = True"
| "extracting (link, w) = False"

fun unfinished :: "Link \<times> worker_at \<Rightarrow> bool" where
  "unfinished (link, Finished) = False"
| "unfinished (link, w) = True"

text \<open>The batches that are still to be received: the seed batch until it is sent, and one
  per worker that has not ended.\<close>

definition outstanding :: "crawl \<Rightarrow> nat" where
  "outstanding s =
     (case seed_send s of None \<Rightarrow> 0 | Some initialLinks \<Rightarrow> 1)
       + length (filter unfinished (workers s))"

text \<open>1 while the main loop is in its body: the batch is received, \<^verbatim>\<open>n--\<close> is to come.\<close>

definition in_body :: "crawl \<Rightarrow> nat" where
  "in_body s = (case at_main s of AtRange ls \<Rightarrow> 1 | _ \<Rightarrow> 0)"

text \<open>The greatest depth of a link in flight: the first revision extracts the pages at
  \<^verbatim>\<open>maxDepth\<close> too.\<close>

definition bound :: "variant \<Rightarrow> int \<Rightarrow> int" where
  "bound v maxDepth = (case v of V1 \<Rightarrow> maxDepth + 1 | V2 \<Rightarrow> maxDepth)"

fun carried :: "Link \<times> worker_at \<Rightarrow> Link list" where
  "carried (link, AtRelease newLinks) = newLinks"
| "carried (link, AtSend batch) = batch"
| "carried (link, w) = []"

definition depth_inv :: "variant \<Rightarrow> int \<Rightarrow> crawl \<Rightarrow> bool" where
  "depth_inv v maxDepth s =
     ((\<forall>l \<in> set (res s). depth l \<le> maxDepth) \<and>
      (\<forall>ls. at_main s = AtRange ls \<longrightarrow> (\<forall>l \<in> set ls. depth l \<le> bound v maxDepth)) \<and>
      (\<forall>ls. seed_send s = Some ls \<longrightarrow> (\<forall>l \<in> set ls. depth l \<le> bound v maxDepth)) \<and>
      (\<forall>w \<in> set (workers s). depth (fst w) < bound v maxDepth \<and>
          (\<forall>l \<in> set (carried w). depth l \<le> bound v maxDepth)))"


text \<open>The link of a seed, and what a crawl of one seed with \<^verbatim>\<open>maxDepth = 0\<close> looks like in
  the second revision: no worker, and the seed on its way from the seed batch to the
  result.\<close>

definition seed_link :: "string \<Rightarrow> Link" where
  "seed_link u = \<lparr>url = TrimSpace u, link_text = u, depth = 0\<rparr>"

definition only_seed_inv :: "string \<Rightarrow> crawl \<Rightarrow> bool" where
  "only_seed_inv u s =
     (workers s = [] \<and> (\<forall>x. visited s x \<longleftrightarrow> x \<in> url ` set (res s)) \<and>
      (case seed_send s of
         Some ls \<Rightarrow> ls = [seed_link u] \<and> res s = [] \<and> at_main s = AtLoop
       | None \<Rightarrow>
           (case at_main s of
              AtRange ls \<Rightarrow> res s @ ls = [seed_link u]
            | _ \<Rightarrow> res s = [seed_link u])))"

section \<open>A bound on the length of a crawl of the second revision\<close>

text \<open>The batch the worker of a link sends in the second revision, and the number of
  steps a crawl can still take because of a link with \<open>k\<close> levels below it: one to
  take it from its batch, and for a link that is expanded the six steps of its worker, the
  step that ends the range loop over its batch, and the steps of the links of that batch.\<close>

definition batch_of :: "outside \<Rightarrow> Link \<Rightarrow> Link list" where
  "batch_of env link =
     (case getUrl env (url link) of
        Inl err \<Rightarrow> []
      | Inr resp \<Rightarrow> ExtractLinks2 (lower_table env) (Body resp) (depth link + 1))"

text \<open>The batch a worker of the second revision is going to send.\<close>

fun worker_batch :: "outside \<Rightarrow> Link \<times> worker_at \<Rightarrow> Link list" where
  "worker_batch env (link, AtGetUrl) = batch_of env link"
| "worker_batch env (link, AtAcquire resp) = ExtractLinks2 (lower_table env) (Body resp) (depth link + 1)"
| "worker_batch env (link, AtExtract resp) = ExtractLinks2 (lower_table env) (Body resp) (depth link + 1)"
| "worker_batch env (link, AtRelease newLinks) = newLinks"
| "worker_batch env (link, AtSend batch) = batch"
| "worker_batch env (link, Finished) = []"

fun cost :: "outside \<Rightarrow> nat \<Rightarrow> Link \<Rightarrow> nat" where
  "cost env 0 link = 1"
| "cost env (Suc k) link = 7 + sum_list (map (cost env k) (batch_of env link))"

definition link_cost :: "outside \<Rightarrow> int \<Rightarrow> Link \<Rightarrow> nat" where
  "link_cost env maxDepth link = cost env (nat (maxDepth - depth link)) link"

definition batch_cost :: "outside \<Rightarrow> int \<Rightarrow> Link list \<Rightarrow> nat" where
  "batch_cost env maxDepth ls = sum_list (map (link_cost env maxDepth) ls)"

fun worker_cost :: "outside \<Rightarrow> int \<Rightarrow> Link \<times> worker_at \<Rightarrow> nat" where
  "worker_cost env maxDepth (link, AtGetUrl) =
     6 + batch_cost env maxDepth (batch_of env link)"
| "worker_cost env maxDepth (link, AtAcquire resp) =
     5 + batch_cost env maxDepth (ExtractLinks2 (lower_table env) (Body resp) (depth link + 1))"
| "worker_cost env maxDepth (link, AtExtract resp) =
     4 + batch_cost env maxDepth (ExtractLinks2 (lower_table env) (Body resp) (depth link + 1))"
| "worker_cost env maxDepth (link, AtRelease newLinks) = 3 + batch_cost env maxDepth newLinks"
| "worker_cost env maxDepth (link, AtSend batch) = 2 + batch_cost env maxDepth batch"
| "worker_cost env maxDepth (link, Finished) = 0"

definition main_cost :: "outside \<Rightarrow> int \<Rightarrow> main_at \<Rightarrow> nat" where
  "main_cost env maxDepth m =
     (case m of AtLoop \<Rightarrow> 1 | AtRange ls \<Rightarrow> 2 + batch_cost env maxDepth ls | Returned \<Rightarrow> 0)"

definition seed_cost :: "outside \<Rightarrow> int \<Rightarrow> Link list option \<Rightarrow> nat" where
  "seed_cost env maxDepth b =
     (case b of None \<Rightarrow> 0 | Some initialLinks \<Rightarrow> 2 + batch_cost env maxDepth initialLinks)"

definition crawl_cost :: "outside \<Rightarrow> int \<Rightarrow> crawl \<Rightarrow> nat" where
  "crawl_cost env maxDepth s =
     main_cost env maxDepth (at_main s) + seed_cost env maxDepth (seed_send s)
       + sum_list (map (worker_cost env maxDepth) (workers s))"

section \<open>Pages and schedules used as examples\<close>

text \<open>Two entries of the table of \<^verbatim>\<open>unicode.ToLower\<close>, U+0130 to i and U+212A to k; the
  examples have no other code point above U+007F that the table changes.\<close>

definition lower_sample :: "rune \<Rightarrow> rune" where
  "lower_sample r = (if r = 304 then 105 else if r = 8490 then 107 else r)"

definition href_a :: "string \<Rightarrow> Token" where
  "href_a h = \<lparr>Type = StartTagToken, DataAtom = atom_A, Data = ''a'',
               Attr = [\<lparr>Key = ''href'', Val = h\<rparr>]\<rparr>"

definition end_a :: Token where
  "end_a = \<lparr>Type = EndTagToken, DataAtom = atom_A, Data = ''a'', Attr = []\<rparr>"

definition text_token :: "string \<Rightarrow> Token" where
  "text_token t = \<lparr>Type = TextToken, DataAtom = atom_other, Data = t, Attr = []\<rparr>"

text \<open>\<^verbatim>\<open><a href="http://y/">Y</a><a href="javascript:void(0)">bad</a>\<close>\<close>

definition page_x :: "Token list" where
  "page_x = [href_a ''http://y/'', text_token ''Y'', end_a,
             href_a ''javascript:void(0)'', text_token ''bad'', end_a]"

definition link_x :: Link where
  "link_x = \<lparr>url = ''http://x/'', link_text = ''http://x/'', depth = 0\<rparr>"

definition link_y :: Link where
  "link_y = \<lparr>url = ''http://y/'', link_text = ''Y'', depth = 1\<rparr>"

text \<open>\<^verbatim>\<open>http://x/\<close> answers 200 with \<open>page_x\<close>; every other request fails in the
  transport.\<close>

definition web_x :: "(rune \<Rightarrow> rune) \<Rightarrow> outside" where
  "web_x tbl =
     \<lparr>http_Get = (\<lambda>u. (if u = ''http://x/'' then Inr \<lparr>StatusCode = 200, Body = page_x\<rparr>
              else Inl ''connection refused'')),
      lower_table = tbl\<rparr>"

text \<open>The steps of one worker from \<^verbatim>\<open>getUrl\<close> to its send, when the fetch succeeds.\<close>

definition fetch_and_send :: "nat \<Rightarrow> goroutine list" where
  "fetch_and_send i = [WorkerG i, WorkerG i, WorkerG i, WorkerG i, WorkerG i]"

text \<open>A whole crawl of \<^verbatim>\<open>http://x/\<close> over \<open>web_x\<close> with \<^verbatim>\<open>maxDepth = 1\<close>, second
  revision: the seed batch, the page of x, then the return.\<close>

definition schedule_x1 :: "goroutine list" where
  "schedule_x1 = [SeedG, MainG, MainG] @ fetch_and_send 0 @ [MainG, MainG, MainG]"




text \<open>\<^verbatim>\<open>http://x/\<close> answers 404 with \<open>page_x\<close> as its body.\<close>

definition web_404 :: "(rune \<Rightarrow> rune) \<Rightarrow> outside" where
  "web_404 tbl =
     \<lparr>http_Get = (\<lambda>u. (if u = ''http://x/'' then Inr \<lparr>StatusCode = 404, Body = page_x\<rparr>
                else Inl ''connection refused'')),
      lower_table = tbl\<rparr>"

text \<open>Every request fails in the transport.\<close>

definition web_down :: "(rune \<Rightarrow> rune) \<Rightarrow> outside" where
  "web_down tbl =
     \<lparr>http_Get = (\<lambda>u. Inl ''connection refused''),
      lower_table = tbl\<rparr>"

text \<open>A whole crawl of \<^verbatim>\<open>http://x/\<close> over \<open>web_x\<close> with \<^verbatim>\<open>maxDepth = 2\<close>, second
  revision: the fetch of \<^verbatim>\<open>http://y/\<close> by the second worker fails.\<close>

definition schedule_x2 :: "goroutine list" where
  "schedule_x2 = [SeedG, MainG, MainG] @ fetch_and_send 0
                   @ [MainG, MainG, WorkerG 1, WorkerG 1, MainG, MainG]"

definition schedule_x2_start :: "goroutine list" where
  "schedule_x2_start = [SeedG, MainG, MainG] @ fetch_and_send 0 @ [MainG]"

definition schedule_x2_rest :: "goroutine list" where
  "schedule_x2_rest = [MainG, WorkerG 1, WorkerG 1, MainG, MainG]"

text \<open>The page of x with eleven links, every other page empty; and a schedule after which
  ten workers are inside \<^verbatim>\<open>ExtractLinks\<close> while the eleventh has yet to fetch.\<close>

definition wide_urls :: "string list" where
  "wide_urls = map (\<lambda>c. ''http://y/'' @ [c]) ''abcdefghijk''"

definition page_wide :: "Token list" where
  "page_wide = concat (map (\<lambda>u. [href_a u, text_token ''t'', end_a]) wide_urls)"

definition web_wide :: "(rune \<Rightarrow> rune) \<Rightarrow> outside" where
  "web_wide tbl =
     \<lparr>http_Get = (\<lambda>u. (if u = ''http://x/'' then Inr \<lparr>StatusCode = 200, Body = page_wide\<rparr>
                 else Inr \<lparr>StatusCode = 200, Body = []\<rparr>)),
      lower_table = tbl\<rparr>"

definition link_k :: Link where
  "link_k = \<lparr>url = ''http://y/k'', link_text = ''t'', depth = 1\<rparr>"

definition schedule_wide :: "goroutine list" where
  "schedule_wide = [SeedG, MainG, MainG] @ fetch_and_send 0 @ replicate 11 MainG
     @ map WorkerG [1..<11] @ map WorkerG [1..<11]"




text \<open>A page with white space U+00A0 around the url and the text of its first anchor, an
  upper-case \<^verbatim>\<open>JavaScript:\<close> url, a url spelled with U+0130, and an anchor whose text is
  U+00A0 alone.\<close>

definition url_upper :: string where
  "url_upper = ''JavaScript:void(0)''"

definition url_dotted :: string where
  "url_dotted = ''javascr'' @ [CHR 0xC4, CHR 0xB0] @ ''pt:void(0)''"

definition nbsp :: string where
  "nbsp = [CHR 0xC2, CHR 0xA0]"

definition page_mixed :: "Token list" where
  "page_mixed =
     [href_a (nbsp @ ''http://y/ ''), text_token (nbsp @ ''Y''), text_token nbsp, end_a,
      href_a url_upper, text_token ''upper'', end_a,
      href_a url_dotted, text_token ''dotted'', end_a,
      href_a ''http://z/'', text_token nbsp, end_a]"


section \<open>Lemmas\<close>

subsection \<open>Link extraction\<close>

lemma Contains_iff: "Contains s sub \<longleftrightarrow> (\<exists>p q. s = p @ sub @ q)"
proof (induction s)
  case Nil
  then show ?case by auto
next
  case (Cons c s)
  show ?case
  proof
    assume "Contains (c # s) sub"
    then consider "take (length sub) (c # s) = sub" | "Contains s sub" by auto
    then show "\<exists>p q. c # s = p @ sub @ q"
    proof cases
      case 1
      then have "c # s = [] @ sub @ drop (length sub) (c # s)"
        by (metis append_Nil append_take_drop_id)
      then show ?thesis by blast
    next
      case 2
      then obtain p q where "s = p @ sub @ q" using Cons.IH by blast
      then have "c # s = (c # p) @ sub @ q" by simp
      then show ?thesis by blast
    qed
  next
    assume "\<exists>p q. c # s = p @ sub @ q"
    then obtain p q where pq: "c # s = p @ sub @ q" by blast
    show "Contains (c # s) sub"
    proof (cases p)
      case Nil
      then have "take (length sub) (c # s) = sub" using pq by simp
      then show ?thesis by simp
    next
      case (Cons a p')
      then have "s = p' @ sub @ q" using pq by simp
      then have "Contains s sub" using Cons.IH by blast
      then show ?thesis by simp
    qed
  qed
qed

text \<open>An ASCII word stays in place, lowered, whatever surrounds it and whatever the
  table: an ASCII byte never belongs to the encoding of another code point.\<close>

lemma DecodeRune_ascii: "isASCII c \<Longrightarrow> DecodeRune (c # s) = (byte c, 1)"
  by (simp add: isASCII_def Let_def)

lemma DecodeRune_shape:
  "snd (DecodeRune (c0 # t)) = 1 \<or>
   (snd (DecodeRune (c0 # t)) = 2 \<and> (\<exists>c1 t1. t = c1 # t1 \<and> cont c1)) \<or>
   (snd (DecodeRune (c0 # t)) = 3 \<and> (\<exists>c1 c2 t2. t = c1 # c2 # t2 \<and> cont c1 \<and> cont c2)) \<or>
   (snd (DecodeRune (c0 # t)) = 4 \<and>
      (\<exists>c1 c2 c3 t3. t = c1 # c2 # c3 # t3 \<and> cont c1 \<and> cont c2 \<and> cont c3))"
proof (cases t)
  case Nil
  then show ?thesis by (simp add: Let_def)
next
  case (Cons c1 t1)
  note t = Cons
  show ?thesis
  proof (cases t1)
    case Nil
    then show ?thesis using t by (simp add: Let_def)
  next
    case (Cons c2 t2)
    note t1 = Cons
    show ?thesis
    proof (cases t2)
      case Nil
      then show ?thesis using t t1 by (simp add: Let_def)
    next
      case (Cons c3 t3)
      then show ?thesis using t t1 by (simp add: Let_def)
    qed
  qed
qed


lemma DecodeRune_width:
  assumes "s \<noteq> []"
  shows "1 \<le> snd (DecodeRune s) \<and> snd (DecodeRune s) \<le> length s \<and>
         (\<forall>i. 1 \<le> i \<and> i < snd (DecodeRune s) \<longrightarrow> \<not> isASCII (s ! i))"
proof -
  obtain c0 t where s: "s = c0 # t" using assms by (cases s) auto
  have na: "cont c \<Longrightarrow> \<not> isASCII c" for c by (simp add: cont_def isASCII_def)
  from DecodeRune_shape[of c0 t] show ?thesis
  proof (elim disjE conjE exE)
    assume "snd (DecodeRune (c0 # t)) = 1"
    then show ?thesis unfolding s by simp
  next
    fix c1 t1 assume "snd (DecodeRune (c0 # t)) = 2" "t = c1 # t1" "cont c1"
    then show ?thesis unfolding s using na by (auto simp: nth_Cons split: nat.splits)
  next
    fix c1 c2 t2 assume "snd (DecodeRune (c0 # t)) = 3" "t = c1 # c2 # t2" "cont c1" "cont c2"
    then show ?thesis unfolding s using na by (auto simp: nth_Cons split: nat.splits)
  next
    fix c1 c2 c3 t3
    assume "snd (DecodeRune (c0 # t)) = 4" "t = c1 # c2 # c3 # t3" "cont c1" "cont c2" "cont c3"
    then show ?thesis unfolding s using na by (auto simp: nth_Cons split: nat.splits)
  qed
qed

lemma EncodeRune_lower_ascii:
  "isASCII c \<Longrightarrow> EncodeRune (unicode_ToLower tbl (byte c)) = [toLowerByte c]"
  by (auto simp: isASCII_def unicode_ToLower_def EncodeRune_def toLowerByte_def byte_def)

lemma Map_ascii_Cons:
  "isASCII c \<Longrightarrow> strings_Map (unicode_ToLower tbl) (c # s) =
     toLowerByte c # strings_Map (unicode_ToLower tbl) s"
  by (subst strings_Map.simps) (simp add: DecodeRune_ascii EncodeRune_lower_ascii del: DecodeRune.simps)

lemma Map_ascii_append:
  "list_all isASCII w \<Longrightarrow> strings_Map (unicode_ToLower tbl) (w @ q) =
     map toLowerByte w @ strings_Map (unicode_ToLower tbl) q"
  by (induction w) (simp_all add: Map_ascii_Cons)

lemma Map_keeps_ascii_word:
  assumes "list_all isASCII w" "w \<noteq> []"
  shows "\<exists>p'. strings_Map (unicode_ToLower tbl) (p @ w @ q) =
     p' @ map toLowerByte w @ strings_Map (unicode_ToLower tbl) q"
proof (induction p rule: length_induct)
  case (1 p)
  show ?case
  proof (cases p)
    case Nil
    then show ?thesis using Map_ascii_append[OF assms(1), of tbl q] by simp
  next
    case (Cons c p0)
    let ?s = "p @ w @ q"
    let ?n = "snd (DecodeRune ?s)"
    have ne: "?s \<noteq> []" using Cons by simp
    note wd = DecodeRune_width[OF ne]
    have "?n \<le> length p"
    proof (rule ccontr)
      assume "\<not> ?n \<le> length p"
      then have "1 \<le> length p \<and> length p < ?n" using Cons by simp
      then have "\<not> isASCII (?s ! length p)" using wd by blast
      moreover have "?s ! length p = hd w" using assms(2) by (cases w) (simp_all add: nth_append)
      moreover have "isASCII (hd w)" using assms by (cases w) simp_all
      ultimately show False by simp
    qed
    then have dr: "drop ?n ?s = drop ?n p @ w @ q" by simp
    have "length (drop ?n p) < length p" using wd Cons by simp
    then obtain p' where p': "strings_Map (unicode_ToLower tbl) (drop ?n p @ w @ q) =
        p' @ map toLowerByte w @ strings_Map (unicode_ToLower tbl) q"
      using 1 by blast
    have "strings_Map (unicode_ToLower tbl) ?s =
        EncodeRune (unicode_ToLower tbl (fst (DecodeRune ?s))) @
        strings_Map (unicode_ToLower tbl) (drop ?n ?s)"
      by (subst strings_Map.simps) (simp only: ne if_False)
    then have "strings_Map (unicode_ToLower tbl) ?s =
        (EncodeRune (unicode_ToLower tbl (fst (DecodeRune ?s))) @ p') @ map toLowerByte w @
        strings_Map (unicode_ToLower tbl) q"
      using dr p' by simp
    then show ?thesis by blast
  qed
qed

lemma toLowerByte_ascii: "isASCII (toLowerByte c) \<Longrightarrow> isASCII c"
  by (auto simp: toLowerByte_def isASCII_def split: if_splits)

lemma javascript_ascii: "map toLowerByte w = ''javascript'' \<Longrightarrow> list_all isASCII w \<and> w \<noteq> []"
proof -
  assume a: "map toLowerByte w = ''javascript''"
  have "list_all isASCII ''javascript''" by (simp add: isASCII_def byte_def)
  then have "list_all isASCII (map toLowerByte w)" using a by simp
  then have "list_all isASCII w" by (induction w) (auto dest: toLowerByte_ascii)
  moreover have "w \<noteq> []" using a by auto
  ultimately show ?thesis by simp
qed

lemma ToLower_finds_javascript:
  assumes "u = p @ w @ q" "map toLowerByte w = ''javascript''"
  shows "Contains (ToLower tbl u) ''javascript''"
proof (cases "list_all isASCII u")
  case True
  then have "ToLower tbl u = map toLowerByte p @ ''javascript'' @ map toLowerByte q"
    using assms by (simp add: ToLower_def)
  then show ?thesis unfolding Contains_iff by blast
next
  case False
  obtain p' where "strings_Map (unicode_ToLower tbl) (p @ w @ q) =
      p' @ map toLowerByte w @ strings_Map (unicode_ToLower tbl) q"
    using Map_keeps_ascii_word javascript_ascii[OF assms(2)] by blast
  moreover have "ToLower tbl u = strings_Map (unicode_ToLower tbl) u"
    using False by (simp only: ToLower_def if_False)
  ultimately have "ToLower tbl u = p' @ ''javascript'' @ strings_Map (unicode_ToLower tbl) q"
    using assms by simp
  then show ?thesis unfolding Contains_iff by blast
qed

lemma scan2_links:
  "fst (scan2 tbl dep page start tx links warned) =
     links @ filter (Valid tbl) (map (\<lambda>(tag, t). NewLink tag t dep) (anchors page start tx))"
  by (induction page arbitrary: start tx links warned)
     (auto simp: Let_def split: option.splits)

lemma scan1_links:
  "scan1 tbl dep page start tx links = Inr ls \<Longrightarrow>
     ls = links @ filter (Valid tbl) (map (\<lambda>(tag, t). NewLink tag t dep) (anchors page start tx))"
  by (induction page arbitrary: start tx links)
     (fastforce simp: Let_def split: option.splits if_splits)+

lemma foldl_href_depth:
  "depth (foldl (\<lambda>link attr. if Key attr = ''href'' then link\<lparr>url := TrimSpace (Val attr)\<rparr> else link)
     l0 attrs) = depth l0"
  by (induction attrs arbitrary: l0) auto

lemma NewLink_depth: "depth (NewLink tag tx dep) = dep"
  by (simp add: NewLink_def foldl_href_depth)

lemma ExtractLinks2_eq: "ExtractLinks2 tbl body dep = filter (Valid tbl) (candidates body dep)"
  by (simp add: ExtractLinks2_def candidates_def scan2_links)

lemma ExtractLinks1_eq: "ExtractLinks1 tbl body dep = Inr ls \<Longrightarrow> ls = filter (Valid tbl) (candidates body dep)"
  using scan1_links[of tbl dep body None "[]" "[]" ls] by (simp add: ExtractLinks1_def candidates_def)

lemma candidates_depth: "l \<in> set (candidates body dep) \<Longrightarrow> depth l = dep"
  by (auto simp: candidates_def NewLink_depth)

lemma ExtractLinks_depth: "ExtractLinks v tbl body dep = Inr ls \<Longrightarrow> l \<in> set ls \<Longrightarrow> depth l = dep"
  by (cases v) (auto simp: ExtractLinks_def ExtractLinks2_eq dest!: ExtractLinks1_eq candidates_depth)

lemma Valid_iff: "Valid tbl l \<longleftrightarrow> link_text l \<noteq> [] \<and> url l \<noteq> [] \<and> \<not> (\<exists>p q. ToLower tbl (url l) = p @ ''javascript'' @ q)"
  by (simp add: Valid_def Contains_iff)


subsection \<open>The steps of the crawler\<close>

lemma step_cases [consumes 1, case_names ret post body seed fetch_err fetch_ok acquire extract_panic extract_ok release send]:
  assumes "step v env maxDepth g s = Some s'"
  obtains
    "g = MainG" "at_main s = AtLoop" "n_pending s \<le> 0" "s' = s\<lparr>at_main := Returned\<rparr>"
  | "g = MainG" "at_main s = AtRange []" "s' = s\<lparr>n_pending := n_pending s - 1, at_main := AtLoop\<rparr>"
  | link rest where "g = MainG" "at_main s = AtRange (link # rest)"
      "s' = (range_body v maxDepth link rest s)\<lparr>ranged := ranged s @ [link]\<rparr>"
  | batch where "g = SeedG" "seed_send s = Some batch" "receiving s"
      "s' = s\<lparr>seed_send := None, at_main := AtRange batch\<rparr>"
  | i link err where "g = WorkerG i" "i < length (workers s)" "workers s ! i = (link, AtGetUrl)"
      "getUrl env (url link) = Inl err" "s' = set_worker i (link, on_error v) s"
  | i link resp where "g = WorkerG i" "i < length (workers s)" "workers s ! i = (link, AtGetUrl)"
      "getUrl env (url link) = Inr resp" "s' = set_worker i (link, AtAcquire resp) s"
  | i link resp where "g = WorkerG i" "i < length (workers s)" "workers s ! i = (link, AtAcquire resp)"
      "requestTokens s < 10"
      "s' = (set_worker i (link, AtExtract resp) s)\<lparr>requestTokens := requestTokens s + 1\<rparr>"
  | i link resp p where "g = WorkerG i" "i < length (workers s)" "workers s ! i = (link, AtExtract resp)"
      "ExtractLinks v (lower_table env) (Body resp) (depth link + 1) = Inl p" "s' = s\<lparr>panicked := True\<rparr>"
  | i link resp newLinks where "g = WorkerG i" "i < length (workers s)"
      "workers s ! i = (link, AtExtract resp)"
      "ExtractLinks v (lower_table env) (Body resp) (depth link + 1) = Inr newLinks"
      "s' = set_worker i (link, AtRelease newLinks) s"
  | i link newLinks where "g = WorkerG i" "i < length (workers s)"
      "workers s ! i = (link, AtRelease newLinks)" "requestTokens s > 0"
      "s' = (set_worker i (link, AtSend newLinks) s)\<lparr>requestTokens := requestTokens s - 1\<rparr>"
  | i link batch where "g = WorkerG i" "i < length (workers s)" "workers s ! i = (link, AtSend batch)"
      "receiving s" "s' = (set_worker i (link, Finished) s)\<lparr>at_main := AtRange batch\<rparr>"
proof (cases g)
  case MainG
  with assms that(1,2,3) show ?thesis
    by (auto simp: step_def main_step_def split: if_splits main_at.splits list.splits)
next
  case SeedG
  with assms that(4) show ?thesis
    by (auto simp: step_def seed_step_def split: if_splits option.splits)
next
  case (WorkerG i)
  with assms have ws: "worker_step v env i s = Some s'" and np: "\<not> panicked s"
    by (auto simp: step_def split: if_splits)
  then have i: "i < length (workers s)" by (auto simp: worker_step_def split: if_splits)
  obtain link w where lw: "workers s ! i = (link, w)" by (cases "workers s ! i")
  show ?thesis
  proof (cases w)
    case AtGetUrl
    with ws i lw WorkerG that(5,6) show ?thesis
      by (cases "getUrl env (url link)") (auto simp: worker_step_def)
  next
    case (AtAcquire resp)
    with ws i lw WorkerG that(7) show ?thesis
      by (auto simp: worker_step_def split: if_splits)
  next
    case (AtExtract resp)
    with ws i lw WorkerG that(8,9) show ?thesis
      by (cases "ExtractLinks v (lower_table env) (Body resp) (depth link + 1)") (auto simp: worker_step_def)
  next
    case (AtRelease newLinks)
    with ws i lw WorkerG that(10) show ?thesis
      by (auto simp: worker_step_def split: if_splits)
  next
    case (AtSend batch)
    with ws i lw WorkerG that(11) show ?thesis
      by (auto simp: worker_step_def split: if_splits)
  next
    case Finished
    with ws i lw show ?thesis by (auto simp: worker_step_def)
  qed
qed

lemma step_not_panicked: "step v env maxDepth g s = Some s' \<Longrightarrow> \<not> panicked s"
  by (auto simp: step_def split: if_splits)

lemma range_body_cases [case_names skip stop1 spawn1 leaf2 spawn2]:
  obtains
    "visited s (url link)" "range_body v maxDepth link rest s = s\<lparr>at_main := AtRange rest\<rparr>"
  | "v = V1" "\<not> visited s (url link)" "depth link = maxDepth + 1"
      "range_body v maxDepth link rest s =
         s\<lparr>visited := (visited s)(url link := True), n_pending := 0, at_main := AtRange []\<rparr>"
  | "v = V1" "\<not> visited s (url link)" "depth link \<noteq> maxDepth + 1"
      "range_body v maxDepth link rest s =
         s\<lparr>visited := (visited s)(url link := True), res := res s @ [link],
           n_pending := n_pending s + 1, workers := workers s @ [(link, AtGetUrl)],
           at_main := AtRange rest\<rparr>"
  | "v = V2" "\<not> visited s (url link)" "depth link = maxDepth"
      "range_body v maxDepth link rest s =
         s\<lparr>visited := (visited s)(url link := True), res := res s @ [link],
           at_main := AtRange rest\<rparr>"
  | "v = V2" "\<not> visited s (url link)" "depth link \<noteq> maxDepth"
      "range_body v maxDepth link rest s =
         s\<lparr>visited := (visited s)(url link := True), res := res s @ [link],
           n_pending := n_pending s + 1, workers := workers s @ [(link, AtGetUrl)],
           at_main := AtRange rest\<rparr>"
  by (cases v; cases "visited s (url link)")
     (auto simp: range_body_def range_body1_def range_body2_def Let_def)

lemma length_filter_mono:
  "(\<And>x. P x \<Longrightarrow> Q x) \<Longrightarrow> length (filter P xs) \<le> length (filter Q xs)"
  by (induction xs) auto

lemma length_filter_update:
  "i < length xs \<Longrightarrow>
     length (filter P (xs[i := y])) + (if P (xs ! i) then 1 else 0) =
     length (filter P xs) + (if P y then 1 else 0)"
proof (induction xs arbitrary: i)
  case Nil
  then show ?case by simp
next
  case (Cons x xs)
  then show ?case by (cases i) auto
qed

lemma tokens_invariant:
  "reachable v env maxDepth urls s \<Longrightarrow>
     requestTokens s = length (filter holds_token (workers s)) \<and> requestTokens s \<le> 10"
proof (induction rule: reachable.induct)
  case reach_init
  then show ?case by (simp add: crawler_init_def)
next
  case (reach_step s g s')
  from reach_step.hyps(2) show ?case
  proof (cases rule: step_cases)
    case (body link rest)
    then show ?thesis using reach_step.IH
      by (cases rule: range_body_cases[of s link v maxDepth rest]) auto
  next
    case (fetch_err i link err)
    then show ?thesis using reach_step.IH length_filter_update[of i "workers s" holds_token "(link, on_error v)"]
      by (cases v) (auto simp: set_worker_def on_error_def)
  next
    case (fetch_ok i link resp)
    then show ?thesis using reach_step.IH length_filter_update[of i "workers s" holds_token "(link, AtAcquire resp)"]
      by (auto simp: set_worker_def)
  next
    case (acquire i link resp)
    then show ?thesis using reach_step.IH length_filter_update[of i "workers s" holds_token "(link, AtExtract resp)"]
      by (auto simp: set_worker_def)
  next
    case (extract_ok i link resp newLinks)
    then show ?thesis using reach_step.IH length_filter_update[of i "workers s" holds_token "(link, AtRelease newLinks)"]
      by (auto simp: set_worker_def)
  next
    case (release i link newLinks)
    then show ?thesis using reach_step.IH length_filter_update[of i "workers s" holds_token "(link, AtSend newLinks)"]
      by (auto simp: set_worker_def)
  next
    case (send i link batch)
    then show ?thesis using reach_step.IH length_filter_update[of i "workers s" holds_token "(link, Finished)"]
      by (auto simp: set_worker_def)
  qed (use reach_step.IH in auto)
qed


subsection \<open>Depths\<close>

lemma in_set_updateD: "x \<in> set (xs[i := y]) \<Longrightarrow> x = y \<or> x \<in> set xs"
  by (meson insertE set_update_subset_insert subsetD)

lemma depth_inv_set_worker:
  assumes "depth_inv v maxDepth s" "i < length (workers s)" "workers s ! i = (link, w)"
    and "\<forall>l \<in> set (carried (link, w')). depth l \<le> bound v maxDepth"
  shows "depth_inv v maxDepth (set_worker i (link, w') s)"
proof -
  have "(link, w) \<in> set (workers s)" using assms(2,3) by (metis nth_mem)
  then have "depth link < bound v maxDepth" using assms(1) by (auto simp: depth_inv_def)
  then show ?thesis using assms(1,4)
    by (auto simp: depth_inv_def set_worker_def dest!: in_set_updateD)
qed

lemma depth_invariant:
  assumes "0 \<le> maxDepth"
  shows "reachable v env maxDepth urls s \<Longrightarrow> depth_inv v maxDepth s"
proof (induction rule: reachable.induct)
  case reach_init
  then show ?case using assms by (cases v) (auto simp: depth_inv_def crawler_init_def bound_def)
next
  case (reach_step s g s')
  note IH = reach_step.IH
  from reach_step.hyps(2) show ?case
  proof (cases rule: step_cases)
    case ret
    then show ?thesis using IH by (auto simp: depth_inv_def)
  next
    case post
    then show ?thesis using IH by (auto simp: depth_inv_def)
  next
    case (body link rest)
    then have dl: "depth link \<le> bound v maxDepth" and
       rest: "\<forall>l \<in> set rest. depth l \<le> bound v maxDepth"
      using IH by (auto simp: depth_inv_def)
    show ?thesis
    proof (cases rule: range_body_cases[of s link v maxDepth rest])
      case skip
      then show ?thesis using body IH rest by (auto simp: depth_inv_def)
    next
      case stop1
      then show ?thesis using body IH rest by (auto simp: depth_inv_def)
    next
      case spawn1
      then show ?thesis using body IH rest dl by (auto simp: depth_inv_def bound_def)
    next
      case leaf2
      then show ?thesis using body IH rest dl by (auto simp: depth_inv_def bound_def)
    next
      case spawn2
      then show ?thesis using body IH rest dl by (auto simp: depth_inv_def bound_def)
    qed
  next
    case (seed batch)
    then show ?thesis using IH by (auto simp: depth_inv_def)
  next
    case (fetch_err i link err)
    then show ?thesis using IH depth_inv_set_worker[of v maxDepth s i link AtGetUrl "on_error v"]
      by (cases v) (auto simp: on_error_def)
  next
    case (fetch_ok i link resp)
    then show ?thesis using IH depth_inv_set_worker[of v maxDepth s i link AtGetUrl "AtAcquire resp"]
      by auto
  next
    case (acquire i link resp)
    then have "depth_inv v maxDepth (set_worker i (link, AtExtract resp) s)"
      using IH depth_inv_set_worker[of v maxDepth s i link "AtAcquire resp" "AtExtract resp"] by auto
    then show ?thesis using acquire by (auto simp: depth_inv_def)
  next
    case (extract_panic i link resp p)
    then show ?thesis using IH by (auto simp: depth_inv_def)
  next
    case (extract_ok i link resp newLinks)
    have "(link, AtExtract resp) \<in> set (workers s)" using extract_ok(2,3) by (metis nth_mem)
    then have "depth link < bound v maxDepth" using IH by (auto simp: depth_inv_def)
    moreover have "\<forall>l \<in> set newLinks. depth l = depth link + 1"
      using ExtractLinks_depth[OF extract_ok(4)] by blast
    ultimately have "\<forall>l \<in> set (carried (link, AtRelease newLinks)). depth l \<le> bound v maxDepth"
      by auto
    then show ?thesis using extract_ok IH
        depth_inv_set_worker[of v maxDepth s i link "AtExtract resp" "AtRelease newLinks"] by auto
  next
    case (release i link newLinks)
    have "(link, AtRelease newLinks) \<in> set (workers s)" using release(2,3) by (metis nth_mem)
    then have "\<forall>l \<in> set newLinks. depth l \<le> bound v maxDepth"
      using IH by (force simp: depth_inv_def)
    then have "depth_inv v maxDepth (set_worker i (link, AtSend newLinks) s)"
      using release IH depth_inv_set_worker[of v maxDepth s i link "AtRelease newLinks" "AtSend newLinks"]
      by auto
    then show ?thesis using release by (auto simp: depth_inv_def)
  next
    case (send i link batch)
    have "(link, AtSend batch) \<in> set (workers s)" using send(2,3) by (metis nth_mem)
    then have b: "\<forall>l \<in> set batch. depth l \<le> bound v maxDepth"
      using IH by (force simp: depth_inv_def)
    have "depth_inv v maxDepth (set_worker i (link, Finished) s)"
      using send IH depth_inv_set_worker[of v maxDepth s i link "AtSend batch" Finished] by auto
    then show ?thesis using send b by (auto simp: depth_inv_def)
  qed
qed


subsection \<open>Visited URLs and the result\<close>








lemma workers_in_res:
  "reachable v env maxDepth urls s \<Longrightarrow> \<forall>w \<in> set (workers s). fst w \<in> set (res s)"
proof (induction rule: reachable.induct)
  case reach_init
  then show ?case by (simp add: crawler_init_def)
next
  case (reach_step s g s')
  note IH = reach_step.IH
  have upd: "\<forall>w \<in> set ((workers s)[i := (link, w')]). fst w \<in> set (res s)"
    if "i < length (workers s)" "workers s ! i = (link, w0)" for i link w' w0
  proof -
    have "(link, w0) \<in> set (workers s)" using that by (metis nth_mem)
    then have "link \<in> set (res s)" using IH by force
    then show ?thesis using IH by (auto dest!: in_set_updateD)
  qed
  from reach_step.hyps(2) show ?case
  proof (cases rule: step_cases)
    case (body link rest)
    then show ?thesis using IH
      by (cases rule: range_body_cases[of s link v maxDepth rest]) auto
  qed (use IH upd in \<open>auto simp: set_worker_def\<close>)
qed

lemma res_grows:
  assumes "step v env maxDepth g s = Some s'"
  shows "\<exists>ls. res s' = res s @ ls"
  using assms
proof (cases rule: step_cases)
  case (body link rest)
  then show ?thesis
    by (cases rule: range_body_cases[of s link v maxDepth rest]) auto
qed (auto simp: set_worker_def)


subsection \<open>The pending counter of the second revision\<close>

lemma no_panic2: "reachable V2 env maxDepth urls s \<Longrightarrow> \<not> panicked s"
proof (induction rule: reachable.induct)
  case reach_init
  then show ?case by (simp add: crawler_init_def)
next
  case (reach_step s g s')
  from reach_step.hyps(2) show ?case
  proof (cases rule: step_cases)
    case (body link rest)
    then show ?thesis using reach_step.IH
      by (cases rule: range_body_cases[of s link V2 maxDepth rest]) auto
  qed (use reach_step.IH in \<open>auto simp: set_worker_def ExtractLinks_def\<close>)
qed

lemma outstanding_set_worker:
  assumes "i < length (workers s)"
  shows "int (outstanding (set_worker i y s)) =
     int (outstanding s) - (if unfinished (workers s ! i) then 1 else 0)
       + (if unfinished y then 1 else 0)"
  using length_filter_update[OF assms, of unfinished y]
  by (simp add: outstanding_def set_worker_def split: if_splits)

lemma set_worker_fields [simp]:
  "n_pending (set_worker i y s) = n_pending s"
  "visited (set_worker i y s) = visited s"
  "res (set_worker i y s) = res s"
  "at_main (set_worker i y s) = at_main s"
  "seed_send (set_worker i y s) = seed_send s"
  "workers (set_worker i y s) = (workers s)[i := y]"
  "requestTokens (set_worker i y s) = requestTokens s"
  "panicked (set_worker i y s) = panicked s"
  "ranged (set_worker i y s) = ranged s"
  by (simp_all add: set_worker_def)

lemma in_body_set_worker [simp]: "in_body (set_worker i y s) = in_body s"
  by (simp add: in_body_def)

lemma counter_invariant2:
  "reachable V2 env maxDepth urls s \<Longrightarrow>
     n_pending s + 1 = int (outstanding s) + int (in_body s) + int (length urls)"
proof (induction rule: reachable.induct)
  case reach_init
  then show ?case by (simp add: crawler_init_def outstanding_def in_body_def)
next
  case (reach_step s g s')
  note IH = reach_step.IH
  from reach_step.hyps(2) show ?case
  proof (cases rule: step_cases)
    case ret
    then show ?thesis using IH by (simp add: outstanding_def in_body_def)
  next
    case post
    then show ?thesis using IH by (simp add: outstanding_def in_body_def)
  next
    case (body link rest)
    then show ?thesis using IH
      by (cases rule: range_body_cases[of s link V2 maxDepth rest])
         (simp_all add: outstanding_def in_body_def)
  next
    case (seed batch)
    then show ?thesis using IH by (simp add: outstanding_def in_body_def receiving_def)
  next
    case (fetch_err i link err)
    then show ?thesis using IH outstanding_set_worker[of i s "(link, AtSend [])"]
      by (simp add: on_error_def)
  next
    case (fetch_ok i link resp)
    then show ?thesis using IH outstanding_set_worker[of i s "(link, AtAcquire resp)"]
      by simp
  next
    case (acquire i link resp)
    have "outstanding s' = outstanding (set_worker i (link, AtExtract resp) s)"
      "in_body s' = in_body s" "n_pending s' = n_pending s"
      using acquire(5) by (simp_all add: outstanding_def in_body_def)
    then show ?thesis using acquire(2,3) IH outstanding_set_worker[of i s "(link, AtExtract resp)"]
      by simp
  next
    case (extract_panic i link resp p)
    then show ?thesis using IH by (simp add: outstanding_def in_body_def)
  next
    case (extract_ok i link resp newLinks)
    then show ?thesis using IH outstanding_set_worker[of i s "(link, AtRelease newLinks)"]
      by simp
  next
    case (release i link newLinks)
    have "outstanding s' = outstanding (set_worker i (link, AtSend newLinks) s)"
      "in_body s' = in_body s" "n_pending s' = n_pending s"
      using release(5) by (simp_all add: outstanding_def in_body_def)
    then show ?thesis using release(2,3) IH outstanding_set_worker[of i s "(link, AtSend newLinks)"]
      by simp
  next
    case (send i link batch)
    have "outstanding s' = outstanding (set_worker i (link, Finished) s)"
      "in_body s' = 1" "n_pending s' = n_pending s" "in_body s = 0"
      using send(4,5) by (simp_all add: outstanding_def in_body_def receiving_def)
    then show ?thesis using send(2,3) IH outstanding_set_worker[of i s "(link, Finished)"]
      by simp
  qed
qed


subsection \<open>Progress of the second revision\<close>

lemma filter_nonempty_nth:
  "0 < length (filter P xs) \<Longrightarrow> \<exists>i < length xs. P (xs ! i)"
  by (metis filter_False in_set_conv_nth length_greater_0_conv)

lemma holder_can_step2:
  assumes "\<not> panicked s" "i < length (workers s)" "holds_token (workers s ! i)"
    "requestTokens s = length (filter holds_token (workers s))"
  shows "\<exists>s'. step V2 env maxDepth (WorkerG i) s = Some s'"
proof -
  have "workers s ! i \<in> set (workers s)" using assms(2) by simp
  then have "0 < length (filter holds_token (workers s))" using assms(3)
    by (metis filter_empty_conv length_greater_0_conv)
  then have pos: "0 < requestTokens s" using assms(4) by simp
  obtain link w where lw: "workers s ! i = (link, w)" by (cases "workers s ! i")
  show ?thesis using assms(1,2,3) lw pos
    by (cases w) (auto simp: step_def worker_step_def ExtractLinks_def)
qed


lemma main_returns:
  "\<not> panicked s \<Longrightarrow> at_main s = AtLoop \<Longrightarrow> \<not> n_pending s > 0 \<Longrightarrow>
     step v env maxDepth MainG s = Some (s\<lparr>at_main := Returned\<rparr>)"
  by (simp add: step_def main_step_def)

lemma main_in_range:
  "\<not> panicked s \<Longrightarrow> at_main s = AtRange ls \<Longrightarrow> \<exists>s'. step v env maxDepth MainG s = Some s'"
  by (cases ls) (simp_all add: step_def main_step_def)

lemma seed_sends:
  "\<not> panicked s \<Longrightarrow> receiving s \<Longrightarrow> seed_send s = Some batch \<Longrightarrow>
     step v env maxDepth SeedG s = Some (s\<lparr>seed_send := None, at_main := AtRange batch\<rparr>)"
  by (simp add: step_def seed_step_def)

lemma worker_fetches:
  "\<not> panicked s \<Longrightarrow> i < length (workers s) \<Longrightarrow> workers s ! i = (link, AtGetUrl) \<Longrightarrow>
     \<exists>s'. step v env maxDepth (WorkerG i) s = Some s'"
  by (cases "getUrl env (url link)") (simp_all add: step_def worker_step_def)

lemma worker_acquires:
  "\<not> panicked s \<Longrightarrow> i < length (workers s) \<Longrightarrow> workers s ! i = (link, AtAcquire resp) \<Longrightarrow>
     requestTokens s < 10 \<Longrightarrow>
     \<exists>s'. step v env maxDepth (WorkerG i) s = Some s'"
  by (simp add: step_def worker_step_def)

lemma worker_sends:
  "\<not> panicked s \<Longrightarrow> i < length (workers s) \<Longrightarrow> workers s ! i = (link, AtSend batch) \<Longrightarrow>
     receiving s \<Longrightarrow>
     \<exists>s'. step v env maxDepth (WorkerG i) s = Some s'"
  by (simp add: step_def worker_step_def)


lemma progress2:
  assumes "reachable V2 env maxDepth [u] s" "at_main s \<noteq> Returned"
  shows "\<exists>g s'. step V2 env maxDepth g s = Some s'"
proof -
  have np: "\<not> panicked s" using assms(1) by (rule no_panic2)
  have cnt: "n_pending s = int (outstanding s) + int (in_body s)"
    using counter_invariant2[OF assms(1)] by simp
  have tok: "requestTokens s = length (filter holds_token (workers s))"
    using tokens_invariant[OF assms(1)] by simp
  show ?thesis
  proof (cases "at_main s")
    case AtLoop
    show ?thesis
    proof (cases "n_pending s > 0")
      case False
      have "\<exists>s'. step V2 env maxDepth MainG s = Some s'"
        using main_returns[OF np AtLoop False, of V2 env maxDepth] by simp
      then show ?thesis by (rule exI[where x = MainG])
    next
      case True
      then have rc: "receiving s" using AtLoop by (simp add: receiving_def)
      show ?thesis
      proof (cases "seed_send s")
        case (Some batch)
        have "\<exists>s'. step V2 env maxDepth SeedG s = Some s'"
          using seed_sends[OF np rc Some, of V2 env maxDepth] by simp
        then show ?thesis by (rule exI[where x = SeedG])
      next
        case None
        then have "0 < length (filter unfinished (workers s))"
          using True cnt AtLoop by (simp add: outstanding_def in_body_def)
        then obtain i where i: "i < length (workers s)" "unfinished (workers s ! i)"
          using filter_nonempty_nth[of unfinished "workers s"] by auto
        obtain link w where lw: "workers s ! i = (link, w)" by (cases "workers s ! i")
        have "\<exists>j s'. step V2 env maxDepth (WorkerG j) s = Some s'"
        proof (cases w)
          case AtGetUrl
          then have "workers s ! i = (link, AtGetUrl)" using lw by simp
          from worker_fetches[OF np i(1) this, of V2 env maxDepth] show ?thesis
            by (rule exI[where x = i])
        next
          case (AtAcquire resp)
          show ?thesis
          proof (cases "requestTokens s < 10")
            case True
            moreover have "workers s ! i = (link, AtAcquire resp)" using lw AtAcquire by simp
            ultimately have "\<exists>s'. step V2 env maxDepth (WorkerG i) s = Some s'"
              using worker_acquires[OF np i(1), of link resp V2 env maxDepth] by simp
            then show ?thesis by (rule exI[where x = i])
          next
            case False
            then have "0 < length (filter holds_token (workers s))" using tok by linarith
            then obtain j where j: "j < length (workers s)" "holds_token (workers s ! j)"
              using filter_nonempty_nth[of holds_token "workers s"] by auto
            show ?thesis using holder_can_step2[OF np j tok, of env maxDepth]
              by (rule exI[where x = j])
          qed
        next
          case (AtExtract resp)
          then have "holds_token (workers s ! i)" using lw by simp
          then show ?thesis using holder_can_step2[OF np i(1) _ tok, of env maxDepth]
            by - (rule exI[where x = i], simp)
        next
          case (AtRelease newLinks)
          then have "holds_token (workers s ! i)" using lw by simp
          then show ?thesis using holder_can_step2[OF np i(1) _ tok, of env maxDepth]
            by - (rule exI[where x = i], simp)
        next
          case (AtSend batch)
          then have "workers s ! i = (link, AtSend batch)" using lw by simp
          from worker_sends[OF np i(1) this rc, of V2 env maxDepth] show ?thesis
            by (rule exI[where x = i])
        next
          case Finished
          then show ?thesis using i lw by simp
        qed
        then obtain j where "\<exists>s'. step V2 env maxDepth (WorkerG j) s = Some s'" ..
        then show ?thesis by (rule exI[where x = "WorkerG j"])
      qed
    qed
  next
    case (AtRange ls)
    show ?thesis using main_in_range[OF np AtRange, of V2 env maxDepth]
      by (rule exI[where x = MainG])
  next
    case Returned
    then show ?thesis using assms(2) by simp
  qed
qed



subsection \<open>Runs\<close>

lemma run_reachable:
  "reachable v env maxDepth urls s \<Longrightarrow> run v env maxDepth gs s = Some s'
     \<Longrightarrow> reachable v env maxDepth urls s'"
proof (induction gs arbitrary: s)
  case Nil
  then show ?case by simp
next
  case (Cons g gs)
  then obtain s1 where s1: "step v env maxDepth g s = Some s1"
    and rest: "run v env maxDepth gs s1 = Some s'"
    by (auto split: option.splits)
  have "reachable v env maxDepth urls s1" using Cons.prems(1) s1 by (rule reach_step)
  then show ?case using rest by (rule Cons.IH)
qed

lemma run_from_init:
  "run v env maxDepth gs (crawler_init urls) = Some s \<Longrightarrow> reachable v env maxDepth urls s"
  using reach_init by (rule run_reachable)

lemma crawl_x1:
  "map_option (\<lambda>s. (at_main s, res s)) (run V2 (web_x tbl) 1 schedule_x1 (crawler_init [''http://x/'']))
     = Some (Returned, [link_x, link_y])"
  by code_simp


lemma crawl_wide:
  "map_option (\<lambda>s. (length (workers s), requestTokens s,
                     length (filter extracting (workers s)), workers s ! 11))
     (run V2 (web_wide tbl) 2 schedule_wide (crawler_init [''http://x/'']))
   = Some (12, 10, 10, (link_k, AtGetUrl))"
  by code_simp

text \<open>After its fetch the eleventh worker waits for a token.\<close>

lemma crawl_wide_blocked:
  "map_option (\<lambda>s. (snd (workers s ! 11), step V2 (web_wide tbl) 2 (WorkerG 11) s = None))
     (run V2 (web_wide tbl) 2 (schedule_wide @ [WorkerG 11]) (crawler_init [''http://x/'']))
   = Some (AtAcquire \<lparr>StatusCode = 200, Body = []\<rparr>, True)"
  by code_simp


lemma orphan_end_tag_example:
  "ExtractLinks2 tbl page_x 1 = [link_y] \<and>
   ExtractLinks2 tbl (end_a # page_x) 1 = [] \<and>
   ExtractLinks2_warnings tbl (end_a # page_x) 1 = [[]] \<and>
   ExtractLinks1 tbl (end_a # page_x) 1 = Inl NilPointerDereference"
  by code_simp

lemma page_x_links:
  "ExtractLinks2 tbl page_x 1 = [link_y]" "ExtractLinks1 tbl page_x 1 = Inr [link_y]"
  "candidates page_x 1 = [link_y, \<lparr>url = ''javascript:void(0)'', link_text = ''bad'', depth = 1\<rparr>]"
  by code_simp+

subsection \<open>The second revision stops\<close>

lemma cost_pos: "0 < cost env k link"
  by (cases k) simp_all

lemma link_cost_pos: "0 < link_cost env maxDepth link"
  by (simp add: link_cost_def cost_pos)

lemma batch_of_depth: "l \<in> set (batch_of env link) \<Longrightarrow> depth l = depth link + 1"
  by (auto simp: batch_of_def ExtractLinks2_eq candidates_depth split: sum.splits)

lemma link_cost_expand:
  assumes "depth link < maxDepth"
  shows "link_cost env maxDepth link = 7 + batch_cost env maxDepth (batch_of env link)"
proof -
  obtain k where k: "nat (maxDepth - depth link) = Suc k" using assms
    by (metis Suc_pred' zero_less_nat_eq diff_gt_0_iff_gt)
  then have k': "nat (maxDepth - (depth link + 1)) = k" by linarith
  have "cost env k x = link_cost env maxDepth x" if "x \<in> set (batch_of env link)" for x
    using k' batch_of_depth[OF that] by (simp add: link_cost_def)
  then have "sum_list (map (cost env k) (batch_of env link)) =
        batch_cost env maxDepth (batch_of env link)"
    unfolding batch_cost_def by (intro arg_cong[where f = sum_list] map_cong refl)
  then show ?thesis using k by (simp add: link_cost_def)
qed

lemma sum_list_map_update:
  fixes f :: "'a \<Rightarrow> nat"
  shows "i < length xs \<Longrightarrow>
     sum_list (map f (xs[i := y])) + f (xs ! i) = sum_list (map f xs) + f y"
proof (induction xs arbitrary: i)
  case Nil
  then show ?case by simp
next
  case (Cons x xs)
  then show ?case by (cases i) (auto simp: add.assoc add.left_commute)
qed

lemma crawl_cost_set_worker:
  assumes "i < length (workers s)" "workers s ! i = (link, w)"
  shows "crawl_cost env maxDepth (set_worker i (link, w') s) + worker_cost env maxDepth (link, w)
       = crawl_cost env maxDepth s + worker_cost env maxDepth (link, w')"
  using sum_list_map_update[OF assms(1), of "worker_cost env maxDepth" "(link, w')"] assms(2)
  by (simp add: crawl_cost_def)

lemma crawl_cost_requestTokens [simp]:
  "crawl_cost env maxDepth (s\<lparr>requestTokens := k\<rparr>) = crawl_cost env maxDepth s"
  by (simp add: crawl_cost_def)

lemma crawl_cost_ranged [simp]:
  "crawl_cost env maxDepth (s\<lparr>ranged := k\<rparr>) = crawl_cost env maxDepth s"
  by (simp add: crawl_cost_def)

lemma cost_decreases2:
  assumes "reachable V2 env maxDepth urls s" "0 \<le> maxDepth"
    "step V2 env maxDepth g s = Some s'"
  shows "crawl_cost env maxDepth s' < crawl_cost env maxDepth s"
  using assms(3)
proof (cases rule: step_cases)
  case ret
  then show ?thesis by (simp add: crawl_cost_def main_cost_def)
next
  case post
  then show ?thesis by (simp add: crawl_cost_def main_cost_def)
next
  case (body link rest)
  have "depth link \<le> maxDepth"
    using depth_invariant[OF assms(2,1)] body(2) by (simp add: depth_inv_def bound_def)
  then have lt: "depth link \<noteq> maxDepth \<Longrightarrow> depth link < maxDepth" by simp
  have pos: "0 < link_cost env maxDepth link" by (rule link_cost_pos)
  show ?thesis
  proof (cases rule: range_body_cases[of s link V2 maxDepth rest])
    case skip
    then show ?thesis using body pos by (simp add: crawl_cost_def main_cost_def batch_cost_def)
  next
    case leaf2
    then show ?thesis using body pos by (simp add: crawl_cost_def main_cost_def batch_cost_def)
  next
    case spawn2
    then show ?thesis using body link_cost_expand[OF lt, of env]
      by (simp add: crawl_cost_def main_cost_def batch_cost_def)
  qed simp_all
next
  case (seed batch)
  then show ?thesis by (simp add: crawl_cost_def main_cost_def seed_cost_def receiving_def)
next
  case (fetch_err i link err)
  then show ?thesis using crawl_cost_set_worker[of i s link AtGetUrl env maxDepth "AtSend []"]
    by (simp add: on_error_def batch_of_def batch_cost_def)
next
  case (fetch_ok i link resp)
  then show ?thesis using crawl_cost_set_worker[of i s link AtGetUrl env maxDepth "AtAcquire resp"]
    by (simp add: batch_of_def)
next
  case (acquire i link resp)
  then show ?thesis
    using crawl_cost_set_worker[of i s link "AtAcquire resp" env maxDepth "AtExtract resp"]
    by simp
next
  case (extract_panic i link resp p)
  then show ?thesis by (simp add: ExtractLinks_def)
next
  case (extract_ok i link resp newLinks)
  then show ?thesis
    using crawl_cost_set_worker[of i s link "AtExtract resp" env maxDepth "AtRelease newLinks"]
    by (auto simp: ExtractLinks_def)
next
  case (release i link newLinks)
  then show ?thesis
    using crawl_cost_set_worker[of i s link "AtRelease newLinks" env maxDepth "AtSend newLinks"]
    by simp
next
  case (send i link batch)
  have "crawl_cost env maxDepth s' + 1 =
        crawl_cost env maxDepth (set_worker i (link, Finished) s) + 2 + batch_cost env maxDepth batch"
    using send(4,5) by (simp add: crawl_cost_def main_cost_def receiving_def)
  then show ?thesis
    using send(2,3) crawl_cost_set_worker[of i s link "AtSend batch" env maxDepth Finished]
    by simp
qed

lemma run_length_bounded2:
  assumes "0 \<le> maxDepth"
  shows "reachable V2 env maxDepth urls s \<Longrightarrow> run V2 env maxDepth gs s = Some s' \<Longrightarrow>
     length gs + crawl_cost env maxDepth s' \<le> crawl_cost env maxDepth s"
proof (induction gs arbitrary: s)
  case Nil
  then show ?case by simp
next
  case (Cons g gs)
  then obtain s1 where s1: "step V2 env maxDepth g s = Some s1"
    and rest: "run V2 env maxDepth gs s1 = Some s'"
    by (auto split: option.splits)
  have r1: "reachable V2 env maxDepth urls s1" using Cons.prems(1) s1 by (rule reach_step)
  have "crawl_cost env maxDepth s1 < crawl_cost env maxDepth s"
    using Cons.prems(1) assms s1 by (rule cost_decreases2)
  moreover have "length gs + crawl_cost env maxDepth s' \<le> crawl_cost env maxDepth s1"
    using r1 rest by (rule Cons.IH)
  ultimately show ?case by simp
qed


subsection \<open>Blocked crawls and facts about the second revision\<close>

lemma stuck_at_receive:
  assumes "at_main s = AtLoop" "n_pending s > 0" "seed_send s = None"
    "\<forall>w \<in> set (workers s). \<not> unfinished w"
  shows "step v env maxDepth g s = None"
proof (cases g)
  case MainG
  then show ?thesis using assms(1,2) by (simp add: step_def main_step_def)
next
  case SeedG
  then show ?thesis using assms(3) by (simp add: step_def seed_step_def)
next
  case (WorkerG i)
  show ?thesis
  proof (cases "i < length (workers s)")
    case True
    then have "\<not> unfinished (workers s ! i)" using assms(4) by simp
    then have "snd (workers s ! i) = Finished"
      by (cases "workers s ! i" rule: unfinished.cases) simp_all
    then show ?thesis using WorkerG True
      by (cases "workers s ! i") (simp add: step_def worker_step_def)
  next
    case False
    then show ?thesis using WorkerG by (simp add: step_def worker_step_def)
  qed
qed

lemma crawler2_many_seeds_never_return:
  assumes "reachable V2 env maxDepth urls s" "2 \<le> length urls"
  shows "at_main s \<noteq> Returned"
  using assms(1)
proof (induction rule: reachable.induct)
  case reach_init
  then show ?case by (simp add: crawler_init_def)
next
  case (reach_step s g s')
  from reach_step.hyps(2) show ?case
  proof (cases rule: step_cases)
    case ret
    then show ?thesis using counter_invariant2[OF reach_step.hyps(1)] assms(2) by simp
  next
    case (body link rest)
    then show ?thesis
      by (cases rule: range_body_cases[of s link V2 maxDepth rest]) simp_all
  qed (use reach_step.IH in simp_all)
qed

lemma crawler2_counter_single_seed:
  "reachable V2 env maxDepth [u] s \<Longrightarrow> n_pending s = int (outstanding s) + int (in_body s)"
  using counter_invariant2[of env maxDepth "[u]" s] by simp

lemma crawler2_workers_below_maxDepth:
  assumes "reachable V2 env maxDepth urls s" "0 \<le> maxDepth" "w \<in> set (workers s)"
  shows "depth (fst w) < maxDepth"
  using depth_invariant[OF assms(2,1)] assms(3) by (simp add: depth_inv_def bound_def)

lemma crawler2_leaf_not_expanded:
  assumes "\<not> visited s (url link)" "depth link = maxDepth"
  shows "range_body2 maxDepth link rest s =
     s\<lparr>visited := (visited s)(url link := True), res := res s @ [link], at_main := AtRange rest\<rparr>"
  using assms by (simp add: range_body2_def)

lemma run_append:
  "run v env maxDepth (gs @ hs) s =
     (case run v env maxDepth gs s of None \<Rightarrow> None | Some s' \<Rightarrow> run v env maxDepth hs s')"
  by (induction gs arbitrary: s) (auto split: option.splits)

lemma schedule_x2_split: "schedule_x2 = schedule_x2_start @ schedule_x2_rest"
  by (simp add: schedule_x2_def schedule_x2_start_def schedule_x2_rest_def)

lemma crawl_x2:
  "map_option (\<lambda>s. (at_main s, res s, workers s))
     (run V2 (web_x tbl) 2 schedule_x2 (crawler_init [''http://x/'']))
     = Some (Returned, [link_x, link_y], [(link_x, Finished), (link_y, Finished)])"
  by code_simp

lemma crawl_x2_start:
  "map_option workers (run V2 (web_x tbl) 2 schedule_x2_start (crawler_init [''http://x/'']))
     = Some [(link_x, Finished), (link_y, AtGetUrl)]"
  by code_simp

lemma web_x_y_fails:
  "http_Get (web_x tbl) (url link_y) = Inl ''connection refused''"
  "getUrl (web_x tbl) ''http://y/'' = Inl (TransportError ''connection refused'')"
  by code_simp+

lemma crawler2_maxDepth_0_only_seed:
  "reachable V2 env 0 [u] s \<Longrightarrow> only_seed_inv u s"
proof (induction rule: reachable.induct)
  case reach_init
  then show ?case by (simp add: only_seed_inv_def crawler_init_def seed_link_def)
next
  case (reach_step s g s')
  note IH = reach_step.IH
  from reach_step.hyps(2) show ?case
  proof (cases rule: step_cases)
    case ret
    have "seed_send s = None"
      using ret(3) crawler2_counter_single_seed[OF reach_step.hyps(1)]
      by (cases "seed_send s") (simp_all add: outstanding_def)
    then show ?thesis using ret IH by (auto simp: only_seed_inv_def)
  next
    case post
    then show ?thesis using IH by (auto simp: only_seed_inv_def split: option.splits)
  next
    case (body link rest)
    then have e: "res s = []" "link = seed_link u" "rest = []" "seed_send s = None"
      using IH by (auto simp: only_seed_inv_def append_eq_Cons_conv split: option.splits)
    then have nv: "\<not> visited s (url link)" using IH by (simp add: only_seed_inv_def)
    have d: "depth link = 0" using e by (simp add: seed_link_def)
    have "range_body V2 0 link rest s =
       s\<lparr>visited := (visited s)(url link := True), res := res s @ [link], at_main := AtRange rest\<rparr>"
      using nv d by (simp add: range_body_def range_body2_def)
    then show ?thesis using body IH e by (auto simp: only_seed_inv_def)
  next
    case (seed batch)
    then show ?thesis using IH by (auto simp: only_seed_inv_def receiving_def)
  qed (use IH in \<open>simp_all add: only_seed_inv_def\<close>)
qed

lemma crawler2_maxDepth_0_result:
  assumes "reachable V2 env 0 [u] s"
  shows "workers s = []" and "at_main s = Returned \<Longrightarrow> res s = [seed_link u]"
  using crawler2_maxDepth_0_only_seed[OF assms]
  by (auto simp: only_seed_inv_def split: option.splits)

text \<open>In the second revision the batch a worker sends is fixed when it is spawned:
  every step of the worker but the send keeps it, and the send hands it to the main
  loop and ends the worker.\<close>

lemma worker2_keeps_its_batch:
  assumes "step V2 env maxDepth (WorkerG i) s = Some s'" and "workers s ! i = (link, w)"
  shows "(\<exists>batch. w = AtSend batch \<and> worker_batch env (link, w) = batch \<and>
            at_main s' = AtRange batch \<and> workers s' ! i = (link, Finished)) \<or>
         (unfinished (workers s' ! i) \<and>
            worker_batch env (workers s' ! i) = worker_batch env (link, w))"
  using assms(1)
proof (cases rule: step_cases)
  case (fetch_err j link' err)
  then show ?thesis using assms(2) by (auto simp: on_error_def batch_of_def)
next
  case (fetch_ok j link' resp)
  then show ?thesis using assms(2) by (auto simp: batch_of_def)
next
  case (acquire j link' resp)
  then show ?thesis using assms(2) by auto
next
  case (extract_panic j link' resp p)
  then show ?thesis by (simp add: ExtractLinks_def)
next
  case (extract_ok j link' resp newLinks)
  then show ?thesis using assms(2) by (auto simp: ExtractLinks_def)
next
  case (release j link' newLinks)
  then show ?thesis using assms(2) by auto
next
  case (send j link' batch)
  then show ?thesis using assms(2) by auto
qed simp_all

lemma page_mixed_links:
  "candidates page_mixed 1 =
     [link_y, \<lparr>url = url_upper, link_text = ''upper'', depth = 1\<rparr>,
      \<lparr>url = url_dotted, link_text = ''dotted'', depth = 1\<rparr>,
      \<lparr>url = ''http://z/'', link_text = [], depth = 1\<rparr>]"
  "ExtractLinks2 lower_sample page_mixed 1 = [link_y]"
  "ExtractLinks1 lower_sample page_mixed 1 = Inr [link_y]"
  "ToLower lower_sample url_upper = ''javascript:void(0)''"
  "ToLower lower_sample url_dotted = ''javascript:void(0)''"
  "\<not> Valid lower_sample \<lparr>url = url_upper, link_text = ''upper'', depth = 1\<rparr>"
  "\<not> Valid lower_sample \<lparr>url = url_dotted, link_text = ''dotted'', depth = 1\<rparr>"
  "\<not> Valid lower_sample \<lparr>url = ''http://z/'', link_text = [], depth = 1\<rparr>"
  by code_simp+







text \<open>
  What a valid link is: the test of \<open>Valid\<close>, and no spelling of the word in upper- and
  lower-case ASCII letters anywhere in the url.
\<close>

lemma Valid_no_javascript:
  assumes "Valid tbl l"
  shows "link_text l \<noteq> []" "url l \<noteq> []"
    "\<not> (\<exists>p q. ToLower tbl (url l) = p @ ''javascript'' @ q)"
    "\<not> (\<exists>p w q. url l = p @ w @ q \<and> map toLowerByte w = ''javascript'')"
proof -
  have a: "link_text l \<noteq> [] \<and> url l \<noteq> [] \<and>
      \<not> (\<exists>p q. ToLower tbl (url l) = p @ ''javascript'' @ q)"
    using assms[unfolded Valid_iff] .
  show "link_text l \<noteq> []" using a by (rule conjunct1)
  show "url l \<noteq> []" using a[THEN conjunct2] by (rule conjunct1)
  show "\<not> (\<exists>p q. ToLower tbl (url l) = p @ ''javascript'' @ q)"
    using a[THEN conjunct2] by (rule conjunct2)
  then have c: "\<not> Contains (ToLower tbl (url l)) ''javascript''"
    by (simp only: Contains_iff not_False_eq_True)
  show "\<not> (\<exists>p w q. url l = p @ w @ q \<and> map toLowerByte w = ''javascript'')"
  proof
    assume "\<exists>p w q. url l = p @ w @ q \<and> map toLowerByte w = ''javascript''"
    then obtain p w q where "url l = p @ w @ q" "map toLowerByte w = ''javascript''"
      by (elim exE conjE)
    then have "Contains (ToLower tbl (url l)) ''javascript''"
      by (rule ToLower_finds_javascript)
    then show False using c by (rule_tac notE)
  qed
qed


section \<open>The claims\<close>

text \<open>
  C1. Every worker sends exactly one batch on the frontier channel: the empty batch when
  the fetch fails, the batch of the extractor otherwise. The second revision does so
  (lemmas \<open>worker2_keeps_its_batch\<close>, \<open>crawler2_counter_single_seed\<close>). In the first
  revision the worker returns with nothing sent when the fetch fails: with every request
  refused, the worker of the seed has ended, the main loop waits at the receive with
  \<^verbatim>\<open>n = 1\<close>, and no goroutine can take a step.
\<close>

theorem C1_first_revision_error_path:
  "\<exists>s. run V1 (web_down tbl) 1 [SeedG, MainG, MainG, WorkerG 0] (crawler_init [''http://x/'']) = Some s \<and>
       workers s = [(link_x, Finished)] \<and> at_main s = AtLoop \<and> n_pending s = 1 \<and>
       seed_send s = None \<and> (\<forall>g. step V1 (web_down tbl) 1 g s = None)"
proof -
  have "map_option (\<lambda>s. (workers s, at_main s, n_pending s, seed_send s))
          (run V1 (web_down tbl) 1 [SeedG, MainG, MainG, WorkerG 0] (crawler_init [''http://x/'']))
        = Some ([(link_x, Finished)], AtLoop, 1, None)"
    by code_simp
  then obtain s where r: "run V1 (web_down tbl) 1 [SeedG, MainG, MainG, WorkerG 0] (crawler_init [''http://x/'']) = Some s"
    and f: "workers s = [(link_x, Finished)]" "at_main s = AtLoop" "n_pending s = 1" "seed_send s = None"
    by auto
  have "step V1 (web_down tbl) 1 g s = None" for g
    by (rule stuck_at_receive) (simp_all add: f)
  then show ?thesis using r f by blast
qed




text \<open>
  C3. A response with a status above 299 is to be treated like a transport failure: no
  extraction, an empty batch. \<^verbatim>\<open>getUrl\<close> returns such a response with a nil error, so the
  worker extracts its links: for a 404 whose body is \<open>page_x\<close> the worker of either
  revision hands the link of y to the main loop, and the second revision returns it.
\<close>

theorem C3_status_above_299_is_extracted:
  "getUrl (web_404 tbl) ''http://x/'' = Inr \<lparr>StatusCode = 404, Body = page_x\<rparr> \<and>
   map_option at_main
     (run V1 (web_404 tbl) 1 ([SeedG, MainG, MainG] @ fetch_and_send 0) (crawler_init [''http://x/'']))
     = Some (AtRange [link_y]) \<and>
   map_option at_main
     (run V2 (web_404 tbl) 1 ([SeedG, MainG, MainG] @ fetch_and_send 0) (crawler_init [''http://x/'']))
     = Some (AtRange [link_y]) \<and>
   map_option (\<lambda>s. (at_main s, res s)) (run V2 (web_404 tbl) 1 schedule_x1 (crawler_init [''http://x/'']))
     = Some (Returned, [link_x, link_y])"
  by code_simp

text \<open>
  C4. A link at \<^verbatim>\<open>maxDepth\<close> is recorded and no worker is spawned for it; with one seed
  and \<^verbatim>\<open>maxDepth = 0\<close> the result is the seed and nothing is fetched. The second revision
  does so (lemmas \<open>crawler2_leaf_not_expanded\<close>, \<open>crawler2_workers_below_maxDepth\<close>,
  \<open>crawler2_maxDepth_0_result\<close>, and the second half below). The first revision
  tests \<^verbatim>\<open>link.depth == maxDepth + 1\<close>: with \<^verbatim>\<open>maxDepth = 0\<close> it spawns a worker for the
  seed, which fetches the page of x.
\<close>

theorem C4_first_revision_expands_at_maxDepth:
  "map_option (\<lambda>s. (res s, workers s))
     (run V1 (web_x tbl) 0 [SeedG, MainG, WorkerG 0] (crawler_init [''http://x/'']))
     = Some ([link_x], [(link_x, AtAcquire \<lparr>StatusCode = 200, Body = page_x\<rparr>)]) \<and>
   map_option (\<lambda>s. (at_main s, res s, workers s))
     (run V2 (web_x tbl) 0 [SeedG, MainG, MainG, MainG] (crawler_init [''http://x/'']))
     = Some (Returned, [link_x], [])"
  by code_simp

text \<open>
  C5, as the second revision has it. When \<^verbatim>\<open>ExtractLinks\<close> meets an anchor end tag
  while no start tag is held, it logs the warning and returns the links gathered so far:
  the tokens after that end tag are not read. (The specification says that the
  extraction of the rest of the document goes on.)
\<close>

theorem C5_orphan_end_tag_returns:
  assumes "Type token = EndTagToken" and "DataAtom token = atom_A"
  shows "scan2 tbl dep (token # page) None tx links warned = (links, warned @ [tx])"
  using assms by simp

theorem C5_orphan_end_tag_returns_witness:
  "Type end_a = EndTagToken \<and> DataAtom end_a = atom_A \<and>
   scan2 lower_sample 1 (end_a # page_x) None [] [] [] = ([], [[]])"
proof -
  have t: "Type end_a = EndTagToken" and a: "DataAtom end_a = atom_A"
    by (simp_all add: end_a_def)
  show ?thesis using t a C5_orphan_end_tag_returns[OF t a, of lower_sample 1 page_x "[]" "[]" "[]"] by simp
qed

text \<open>
  C5 as the specification states it fails: after an orphaned end tag the link of
  \<open>page_x\<close> is no longer extracted by the second revision, and the first revision
  dereferences the nil \<^verbatim>\<open>start\<close>.
\<close>

theorem C5_counterexample:
  "\<forall>tbl. ExtractLinks2 tbl page_x 1 = [link_y] \<and>
     ExtractLinks2 tbl (end_a # page_x) 1 = [] \<and>
     ExtractLinks2_warnings tbl (end_a # page_x) 1 = [[]] \<and>
     ExtractLinks1 tbl (end_a # page_x) 1 = Inl NilPointerDereference"
  using orphan_end_tag_example by blast

text \<open>
  C6, as the code has it (second revision, one seed, \<^verbatim>\<open>maxDepth \<ge> 0\<close>). When the fetch
  of a link fails in the transport, its worker goes on to send the empty batch and nothing
  else of the state changes; the link is in the result already and stays there in every
  later state; and the crawl still ends: every run from that state is no longer than
  \<open>crawl_cost\<close>, and after every run either \<^verbatim>\<open>crawler\<close> has returned or some goroutine
  can take a step.
\<close>

theorem C6_fetch_error_is_silent:
  assumes "reachable V2 env maxDepth [u] s" and "0 \<le> maxDepth"
    and "i < length (workers s)" and "workers s ! i = (link, AtGetUrl)"
    and "http_Get env (url link) = Inl e"
  shows "step V2 env maxDepth (WorkerG i) s = Some (set_worker i (link, AtSend []) s) \<and>
         (\<forall>gs s'. run V2 env maxDepth gs s = Some s' \<longrightarrow>
            link \<in> set (res s') \<and>
            length gs \<le> crawl_cost env maxDepth s \<and>
            (at_main s' = Returned \<or> (\<exists>g s''. step V2 env maxDepth g s' = Some s'')))"
proof -
  have np: "\<not> panicked s" using assms(1) by (rule no_panic2)
  have 1: "step V2 env maxDepth (WorkerG i) s = Some (set_worker i (link, AtSend []) s)"
    using np assms(3,4,5) by (simp add: step_def worker_step_def getUrl_def on_error_def)
  have "(link, AtGetUrl) \<in> set (workers s)" using assms(3,4) by (metis nth_mem)
  then have in_res: "link \<in> set (res s)" using workers_in_res[OF assms(1)] by force
  have 2: "link \<in> set (res s') \<and> length gs \<le> crawl_cost env maxDepth s \<and>
           (at_main s' = Returned \<or> (\<exists>g s''. step V2 env maxDepth g s' = Some s''))"
    if r: "run V2 env maxDepth gs s = Some s'" for gs s'
  proof -
    have reach': "reachable V2 env maxDepth [u] s'" using assms(1) r by (rule run_reachable)
    have a: "link \<in> set (res s')" using r in_res
    proof (induction gs arbitrary: s)
      case Nil
      then show ?case by simp
    next
      case (Cons g gs)
      then obtain s1 where s1: "step V2 env maxDepth g s = Some s1"
        and rest: "run V2 env maxDepth gs s1 = Some s'"
        by (auto split: option.splits)
      have "link \<in> set (res s1)" using res_grows[OF s1] Cons.prems(2) by auto
      then show ?case using rest Cons.IH by blast
    qed
    have b: "length gs \<le> crawl_cost env maxDepth s"
      using run_length_bounded2[OF assms(2,1) r] by simp
    have c: "at_main s' = Returned \<or> (\<exists>g s''. step V2 env maxDepth g s' = Some s'')"
      using progress2[OF reach'] by blast
    show ?thesis using a b c by simp
  qed
  show ?thesis using 1 2 by blast
qed

theorem C6_fetch_error_is_silent_witness:
  "\<exists>s s'. reachable V2 (web_x lower_sample) 2 [''http://x/''] s \<and> (0::int) \<le> 2 \<and> 1 < length (workers s) \<and>
       workers s ! 1 = (link_y, AtGetUrl) \<and> http_Get (web_x lower_sample) (url link_y) = Inl ''connection refused'' \<and>
       step V2 (web_x lower_sample) 2 (WorkerG 1) s = Some (set_worker 1 (link_y, AtSend []) s) \<and>
       run V2 (web_x lower_sample) 2 schedule_x2_rest s = Some s' \<and> at_main s' = Returned \<and>
       link_y \<in> set (res s') \<and> length schedule_x2_rest \<le> crawl_cost (web_x lower_sample) 2 s"
proof -
  obtain s' where r': "run V2 (web_x lower_sample) 2 schedule_x2 (crawler_init [''http://x/'']) = Some s'"
    and e: "at_main s' = Returned"
    using crawl_x2 by auto
  obtain s where r: "run V2 (web_x lower_sample) 2 schedule_x2_start (crawler_init [''http://x/'']) = Some s"
    and w: "workers s = [(link_x, Finished), (link_y, AtGetUrl)]"
    using crawl_x2_start by auto
  have rest: "run V2 (web_x lower_sample) 2 schedule_x2_rest s = Some s'"
    using r r' by (simp add: schedule_x2_split run_append)
  have reach: "reachable V2 (web_x lower_sample) 2 [''http://x/''] s" using r by (rule run_from_init)
  have i: "1 < length (workers s)" and a: "workers s ! 1 = (link_y, AtGetUrl)"
    using w by simp_all
  have z: "(0::int) \<le> 2" by simp
  note c = C6_fetch_error_is_silent[OF reach z i a web_x_y_fails(1)]
  have "step V2 (web_x lower_sample) 2 (WorkerG 1) s = Some (set_worker 1 (link_y, AtSend []) s)"
    using c by simp
  moreover have "link_y \<in> set (res s') \<and> length schedule_x2_rest \<le> crawl_cost (web_x lower_sample) 2 s"
    using c rest by blast
  ultimately show ?thesis using reach i a web_x_y_fails(1) rest e
    by - (rule exI[of _ s], rule exI[of _ s'], simp)
qed

text \<open>
  C6 as the specification states it fails: the link of y is found on the page of x, its
  fetch fails, and the crawl returns it in its result.
\<close>

theorem C6_counterexample:
  "\<forall>tbl. getUrl (web_x tbl) ''http://y/'' = Inl (TransportError ''connection refused'') \<and>
     map_option (\<lambda>s. (at_main s, res s))
       (run V2 (web_x tbl) 2 schedule_x2 (crawler_init [''http://x/'']))
       = Some (Returned, [link_x, link_y])"
proof
  fix tbl
  obtain s where "run V2 (web_x tbl) 2 schedule_x2 (crawler_init [''http://x/'']) = Some s"
    and "at_main s = Returned" "res s = [link_x, link_y]"
    using crawl_x2[of tbl] by auto
  then show "getUrl (web_x tbl) ''http://y/'' = Inl (TransportError ''connection refused'') \<and>
     map_option (\<lambda>s. (at_main s, res s))
       (run V2 (web_x tbl) 2 schedule_x2 (crawler_init [''http://x/'']))
       = Some (Returned, [link_x, link_y])"
    using web_x_y_fails(2)[of tbl] by simp
qed

text \<open>
  C7. With \<^verbatim>\<open>maxDepth \<ge> 0\<close>, no link of the result has a depth above \<^verbatim>\<open>maxDepth\<close>: in
  both revisions, at every moment of the crawl and so in the sequence it returns.
\<close>

theorem C7_depth_bound:
  assumes "reachable v env maxDepth urls s" and "0 \<le> maxDepth" and "l \<in> set (res s)"
  shows "depth l \<le> maxDepth"
  using depth_invariant[OF assms(2,1)] assms(3) by (simp add: depth_inv_def)

theorem C7_depth_bound_witness:
  "\<exists>s. reachable V2 (web_x lower_sample) 1 [''http://x/''] s \<and> (0::int) \<le> 1 \<and> at_main s = Returned \<and>
       res s = [link_x, link_y] \<and> link_y \<in> set (res s) \<and> depth link_y \<le> 1"
proof -
  obtain s where r: "run V2 (web_x lower_sample) 1 schedule_x1 (crawler_init [''http://x/'']) = Some s"
    and e: "at_main s = Returned" "res s = [link_x, link_y]"
    using crawl_x1 by auto
  have reach: "reachable V2 (web_x lower_sample) 1 [''http://x/''] s" using r by (rule run_from_init)
  have m: "link_y \<in> set (res s)" using e by simp
  have "depth link_y \<le> 1" using reach _ m by (rule C7_depth_bound) simp
  then show ?thesis using reach e m by auto
qed




text \<open>
  C9. Every link \<^verbatim>\<open>ExtractLinks\<close> returns has a non-empty text, a non-empty url, and a
  url that does not contain \<^verbatim>\<open>javascript\<close> in any case: its lower-case form as
  \<^verbatim>\<open>strings.ToLower\<close> gives it does not contain the word, and the url itself contains no
  spelling of the word in upper- and lower-case ASCII letters. The links returned are
  exactly the valid ones among the links of the anchors read, in their order, so that an
  anchor whose link fails the test is left out. Both revisions (the first when it
  returns), whatever the table of \<^verbatim>\<open>unicode.ToLower\<close>.
\<close>

theorem C9_extracted_links_valid:
  "(\<forall>l \<in> set (ExtractLinks2 tbl body dep).
      link_text l \<noteq> [] \<and> url l \<noteq> [] \<and>
      \<not> (\<exists>p q. ToLower tbl (url l) = p @ ''javascript'' @ q) \<and>
      \<not> (\<exists>p w q. url l = p @ w @ q \<and> map toLowerByte w = ''javascript'')) \<and>
   ExtractLinks2 tbl body dep = filter (Valid tbl) (candidates body dep) \<and>
   (\<forall>ls. ExtractLinks1 tbl body dep = Inr ls \<longrightarrow>
      ls = filter (Valid tbl) (candidates body dep) \<and>
      (\<forall>l \<in> set ls.
         link_text l \<noteq> [] \<and> url l \<noteq> [] \<and>
         \<not> (\<exists>p q. ToLower tbl (url l) = p @ ''javascript'' @ q) \<and>
         \<not> (\<exists>p w q. url l = p @ w @ q \<and> map toLowerByte w = ''javascript'')))"
proof (intro conjI allI impI ballI)
  fix l assume "l \<in> set (ExtractLinks2 tbl body dep)"
  then have v: "Valid tbl l" by (simp add: ExtractLinks2_eq)
  show "link_text l \<noteq> []" using v by (rule Valid_no_javascript)
  show "url l \<noteq> []" using v by (rule Valid_no_javascript)
  show "\<not> (\<exists>p q. ToLower tbl (url l) = p @ ''javascript'' @ q)"
    using v by (rule Valid_no_javascript)
  show "\<not> (\<exists>p w q. url l = p @ w @ q \<and> map toLowerByte w = ''javascript'')"
    using v by (rule Valid_no_javascript)
next
  show "ExtractLinks2 tbl body dep = filter (Valid tbl) (candidates body dep)"
    by (rule ExtractLinks2_eq)
next
  fix ls assume "ExtractLinks1 tbl body dep = Inr ls"
  then show "ls = filter (Valid tbl) (candidates body dep)" by (rule ExtractLinks1_eq)
next
  fix ls l assume e: "ExtractLinks1 tbl body dep = Inr ls" and m: "l \<in> set ls"
  from e have "ls = filter (Valid tbl) (candidates body dep)" by (rule ExtractLinks1_eq)
  then have v: "Valid tbl l" using m by simp
  show "link_text l \<noteq> []" using v by (rule Valid_no_javascript)
  show "url l \<noteq> []" using v by (rule Valid_no_javascript)
  show "\<not> (\<exists>p q. ToLower tbl (url l) = p @ ''javascript'' @ q)"
    using v by (rule Valid_no_javascript)
  show "\<not> (\<exists>p w q. url l = p @ w @ q \<and> map toLowerByte w = ''javascript'')"
    using v by (rule Valid_no_javascript)
qed

theorem C9_extracted_links_valid_witness:
  "ExtractLinks2 lower_sample page_mixed 1 = [link_y] \<and>
   ExtractLinks1 lower_sample page_mixed 1 = Inr [link_y] \<and>
   candidates page_mixed 1 =
     [link_y, \<lparr>url = url_upper, link_text = ''upper'', depth = 1\<rparr>,
      \<lparr>url = url_dotted, link_text = ''dotted'', depth = 1\<rparr>,
      \<lparr>url = ''http://z/'', link_text = [], depth = 1\<rparr>] \<and>
   link_text link_y \<noteq> [] \<and> url link_y \<noteq> [] \<and>
   \<not> (\<exists>p q. ToLower lower_sample (url link_y) = p @ ''javascript'' @ q) \<and>
   \<not> (\<exists>p w q. url link_y = p @ w @ q \<and> map toLowerByte w = ''javascript'') \<and>
   ToLower lower_sample url_upper = ''javascript:void(0)'' \<and>
   ToLower lower_sample url_dotted = ''javascript:void(0)'' \<and>
   \<not> Valid lower_sample \<lparr>url = url_upper, link_text = ''upper'', depth = 1\<rparr> \<and>
   \<not> Valid lower_sample \<lparr>url = url_dotted, link_text = ''dotted'', depth = 1\<rparr> \<and>
   \<not> Valid lower_sample \<lparr>url = ''http://z/'', link_text = [], depth = 1\<rparr>"
proof -
  have c: "\<forall>l \<in> set (ExtractLinks2 lower_sample page_mixed 1).
      link_text l \<noteq> [] \<and> url l \<noteq> [] \<and>
      \<not> (\<exists>p q. ToLower lower_sample (url l) = p @ ''javascript'' @ q) \<and>
      \<not> (\<exists>p w q. url l = p @ w @ q \<and> map toLowerByte w = ''javascript'')"
    using C9_extracted_links_valid[of lower_sample page_mixed 1] by (rule conjunct1)
  have "link_y \<in> set (ExtractLinks2 lower_sample page_mixed 1)"
    by (simp add: page_mixed_links(2))
  with c have a: "link_text link_y \<noteq> [] \<and> url link_y \<noteq> [] \<and>
      \<not> (\<exists>p q. ToLower lower_sample (url link_y) = p @ ''javascript'' @ q) \<and>
      \<not> (\<exists>p w q. url link_y = p @ w @ q \<and> map toLowerByte w = ''javascript'')"
    by (rule bspec)
  show ?thesis
    by (intro conjI page_mixed_links a[THEN conjunct1] a[THEN conjunct2, THEN conjunct1]
        a[THEN conjunct2, THEN conjunct2, THEN conjunct1] a[THEN conjunct2, THEN conjunct2, THEN conjunct2])
qed

text \<open>
  C10. At no moment of a crawl are more than 10 workers inside \<^verbatim>\<open>ExtractLinks\<close>,
  whatever the number of workers; and the semaphore does not guard the fetch: a worker
  that is about to call \<^verbatim>\<open>getUrl\<close> can always take that step, whatever the number of
  tokens in \<^verbatim>\<open>requestTokens\<close>. Both revisions.
\<close>

theorem C10_at_most_ten_extractors:
  assumes "reachable v env maxDepth urls s"
  shows "length (filter extracting (workers s)) \<le> 10 \<and>
         (\<forall>i link. i < length (workers s) \<and> workers s ! i = (link, AtGetUrl) \<and> \<not> panicked s
            \<longrightarrow> (\<exists>s'. step v env maxDepth (WorkerG i) s = Some s'))"
proof -
  have "extracting w \<Longrightarrow> holds_token w" for w by (cases w rule: extracting.cases) simp_all
  then have "length (filter extracting (workers s)) \<le> length (filter holds_token (workers s))"
    by (rule length_filter_mono)
  then have 1: "length (filter extracting (workers s)) \<le> 10"
    using tokens_invariant[OF assms] by simp
  have 2: "\<exists>s'. step v env maxDepth (WorkerG i) s = Some s'"
    if "i < length (workers s)" "workers s ! i = (link, AtGetUrl)" "\<not> panicked s" for i link
    using that(3,1,2) by (rule worker_fetches)
  show ?thesis using 1 2 by blast
qed

theorem C10_at_most_ten_extractors_witness:
  "\<exists>s. reachable V2 (web_wide lower_sample) 2 [''http://x/''] s \<and> length (workers s) = 12 \<and>
       requestTokens s = 10 \<and> length (filter extracting (workers s)) = 10 \<and>
       length (filter extracting (workers s)) \<le> 10 \<and>
       workers s ! 11 = (link_k, AtGetUrl) \<and> \<not> panicked s \<and>
       (\<exists>s'. step V2 (web_wide lower_sample) 2 (WorkerG 11) s = Some s')"
proof -
  obtain s where r: "run V2 (web_wide lower_sample) 2 schedule_wide (crawler_init [''http://x/'']) = Some s"
    and w: "length (workers s) = 12" "requestTokens s = 10"
      "length (filter extracting (workers s)) = 10" "workers s ! 11 = (link_k, AtGetUrl)"
    using crawl_wide by auto
  have reach: "reachable V2 (web_wide lower_sample) 2 [''http://x/''] s" using r by (rule run_from_init)
  have np: "\<not> panicked s" using reach by (rule no_panic2)
  have "\<exists>s'. step V2 (web_wide lower_sample) 2 (WorkerG 11) s = Some s'"
    using C10_at_most_ten_extractors[OF reach] w np by simp
  moreover have "length (filter extracting (workers s)) \<le> 10"
    using C10_at_most_ten_extractors[OF reach] by simp
  ultimately show ?thesis using reach w np by blast
qed

end
